theory Spec2Isabelle
  imports Complex_Main "HOL-Library.List_Lexorder" "HOL-Library.Sublist" "HOL-Library.AList"
begin

section \<open>Cohort analysis (3\_cohort\_analysis.py)\<close>

text \<open>
  The script reads a delimited file into a data frame, stores it as a parquet file under a
  fixed name, scans that file lazily, and runs one query: filter on \<open>BMI\<close>, projection to
  three columns, a derived label column, and a grouped aggregation. After the query it
  removes the parquet file and returns the result.

  A number of a frame is a rational: every finite floating-point value is one, and the
  bounds 10, 18.5, 25, 30 and 60 are floating-point values themselves, so each comparison
  of the query is exact in the model. The mean of a group is a floating-point computation
  of the library; it is a parameter of the model. Infinities and NaN are outside the model.
\<close>

subsection \<open>Files and frames\<close>

type_synonym path = string

text \<open>The exceptions the two scripts can raise.\<close>

datatype error =
    FileNotFoundError | ColumnNotFoundError | InvalidOperationError | ComputeError
  | KeyError | AttributeError | ValueError | TypeError

text \<open>
  The types the reader gives a column: integers, floating-point numbers, or text. It
  gives \<open>Utf8\<close> to a column in which it finds no number, so to every column of a file that
  has a header and no rows. Booleans and dates are outside the model.
\<close>

datatype dtype = Int64 | Float64 | Utf8

definition numeric :: "dtype \<Rightarrow> bool" where
  "numeric t = (t \<noteq> Utf8)"

text \<open>
  A data frame: the names and types of its columns, and its rows. A row gives the cell
  under a column name: a number, or \<open>None\<close> for a null cell. The query reads no cell of a
  text column, so the text itself is not represented.
\<close>

record frame =
  schema :: "(string \<times> dtype) list"
  rows :: "(string \<Rightarrow> rat option) list"

text \<open>
  What a path of the file system holds: delimited text that the reader parses to a frame,
  a parquet file holding a frame, or anything else (a directory, bytes that do not parse).
\<close>

datatype entry = Delimited frame | Columnar frame | Unreadable

type_synonym filesystem = "path \<rightharpoonup> entry"

definition exists_path :: "filesystem \<Rightarrow> path \<Rightarrow> bool" where
  "exists_path fs p = (fs p \<noteq> None)"

definition remove :: "path \<Rightarrow> filesystem \<Rightarrow> filesystem" where
  "remove p fs = fs(p := None)"

definition read_csv :: "filesystem \<Rightarrow> path \<Rightarrow> error + frame" where
  "read_csv fs p =
     (case fs p of
        None \<Rightarrow> Inl FileNotFoundError
      | Some (Delimited df) \<Rightarrow> Inr df
      | Some _ \<Rightarrow> Inl ComputeError)"

definition write_parquet :: "frame \<Rightarrow> path \<Rightarrow> filesystem \<Rightarrow> filesystem" where
  "write_parquet df p fs = fs(p \<mapsto> Columnar df)"

definition scan_parquet :: "filesystem \<Rightarrow> path \<Rightarrow> error + frame" where
  "scan_parquet fs p =
     (case fs p of
        None \<Rightarrow> Inl FileNotFoundError
      | Some (Columnar df) \<Rightarrow> Inr df
      | Some _ \<Rightarrow> Inl ComputeError)"

subsection \<open>The aggregation of the library\<close>

text \<open>
  What the query takes from the library beyond comparisons: the floating-point mean of a
  non-empty list of numbers, and the mean of a text column, which is a cell (null, in the
  versions that answer) or a refusal of the query (\<open>None\<close>).
\<close>

record engine =
  float_mean :: "rat list \<Rightarrow> rat"
  text_mean :: "rat option option"

subsection \<open>The query\<close>

text \<open>
  Line 28: the rows whose \<open>BMI\<close> lies in the closed range from 10 to 60, each with its
  BMI. A comparison with a null cell is null, and the filter drops the row.
\<close>

definition bmi_in_range :: "rat \<Rightarrow> bool" where
  "bmi_in_range b = (10 \<le> b \<and> b \<le> 60)"

definition filter_bmi :: "(string \<Rightarrow> rat option) list \<Rightarrow> (rat \<times> (string \<Rightarrow> rat option)) list" where
  "filter_bmi rs =
     List.map_filter
       (\<lambda>r. case r ''BMI'' of
              None \<Rightarrow> None
            | Some b \<Rightarrow> if bmi_in_range b then Some (b, r) else None) rs"

text \<open>The test of the filter on a row.\<close>

definition kept_row :: "(string \<Rightarrow> rat option) \<Rightarrow> bool" where
  "kept_row r = (case r ''BMI'' of None \<Rightarrow> False | Some b \<Rightarrow> 10 \<le> b \<and> b \<le> 60)"

text \<open>Line 30: the projection; after it a row has exactly the three columns.\<close>

record patient =
  BMI :: rat
  Glucose :: "rat option"
  Age :: "rat option"

definition to_patient :: "rat \<times> (string \<Rightarrow> rat option) \<Rightarrow> patient" where
  "to_patient x = \<lparr>BMI = fst x, Glucose = snd x ''Glucose'', Age = snd x ''Age''\<rparr>"

definition select_columns :: "(rat \<times> (string \<Rightarrow> rat option)) list \<Rightarrow> patient list" where
  "select_columns xs = map to_patient xs"

text \<open>Lines 32 to 41: the chain of \<open>when\<close>/\<open>then\<close>, the first condition that holds wins.\<close>

definition bmi_range_of :: "rat \<Rightarrow> string" where
  "bmi_range_of b =
     (if b < 37 / 2 then ''Underweight''
      else if b < 25 then ''Normal''
      else if b < 30 then ''Overweight''
      else ''Obese'')"

definition with_bmi_range :: "patient list \<Rightarrow> (string \<times> patient) list" where
  "with_bmi_range ps = map (\<lambda>p. (bmi_range_of (BMI p), p)) ps"

text \<open>
  Lines 43 to 47: one output row for each value of the label column, aggregating the rows
  that carry it. The mean of a numeric column skips the null cells and is null when
  nothing is left; the count is the number of rows. The query does not fix the order of
  the groups; the model lists each label once, in the order in which \<open>remdups\<close> leaves
  them.
\<close>

record cohort =
  bmi_range :: string
  avg_glucose :: "rat option"
  patient_count :: nat
  avg_age :: "rat option"

definition mean_of :: "engine \<Rightarrow> dtype \<Rightarrow> rat option list \<Rightarrow> rat option" where
  "mean_of eng t cells =
     (if numeric t then
        (case List.map_filter id cells of
           [] \<Rightarrow> None
         | x # xs \<Rightarrow> Some (float_mean eng (x # xs)))
      else (case text_mean eng of None \<Rightarrow> None | Some v \<Rightarrow> v))"

definition agg :: "engine \<Rightarrow> dtype \<Rightarrow> dtype \<Rightarrow> string \<Rightarrow> patient list \<Rightarrow> cohort" where
  "agg eng tg ta k ps =
     \<lparr>bmi_range = k,
      avg_glucose = mean_of eng tg (map Glucose ps),
      patient_count = length ps,
      avg_age = mean_of eng ta (map Age ps)\<rparr>"

definition group_by_agg :: "engine \<Rightarrow> dtype \<Rightarrow> dtype \<Rightarrow> (string \<times> patient) list \<Rightarrow> cohort list" where
  "group_by_agg eng tg ta ls =
     map (\<lambda>k. agg eng tg ta k (map snd (filter (\<lambda>l. fst l = k) ls))) (remdups (map fst ls))"

text \<open>
  Line 48: \<open>collect\<close> resolves the query against the schema and runs it. A column that
  is missing, a comparison of a text column with a number, and a mean that the library
  refuses all raise here.
\<close>

definition mean_supported :: "engine \<Rightarrow> dtype \<Rightarrow> bool" where
  "mean_supported eng t = (numeric t \<or> text_mean eng \<noteq> None)"

definition collect :: "engine \<Rightarrow> frame \<Rightarrow> error + cohort list" where
  "collect eng df =
     (case (map_of (schema df) ''BMI'', map_of (schema df) ''Glucose'', map_of (schema df) ''Age'') of
        (Some tb, Some tg, Some ta) \<Rightarrow>
          if \<not> numeric tb then Inl InvalidOperationError
          else if \<not> (mean_supported eng tg \<and> mean_supported eng ta) then Inl InvalidOperationError
          else Inr (group_by_agg eng tg ta (with_bmi_range (select_columns (filter_bmi (rows df)))))
      | _ \<Rightarrow> Inl ColumnNotFoundError)"

subsection \<open>analyze\_patient\_cohorts\<close>

definition parquet_file :: path where
  "parquet_file = ''patients_large.parquet''"

text \<open>
  The function returns the file system it leaves behind together with its result. An
  exception leaves through \<open>Inl\<close> at the statement that raised it, with the file system as
  it is at that point: the function has no handler of its own.
\<close>

definition analyze_patient_cohorts ::
  "engine \<Rightarrow> filesystem \<Rightarrow> path \<Rightarrow> filesystem \<times> (error + cohort list)" where
  "analyze_patient_cohorts eng fs input_file =
     (if \<not> exists_path fs input_file then (fs, Inl FileNotFoundError)
      else
        (case read_csv fs input_file of
           Inl e \<Rightarrow> (fs, Inl e)
         | Inr df \<Rightarrow>
            (let fs1 = write_parquet df parquet_file fs in
             (case scan_parquet fs1 parquet_file of
                Inl e \<Rightarrow> (fs1, Inl e)
              | Inr lf \<Rightarrow>
                 (case collect eng lf of
                    Inl e \<Rightarrow> (fs1, Inl e)
                  | Inr cohort_results \<Rightarrow>
                     ((if exists_path fs1 parquet_file then remove parquet_file fs1 else fs1),
                      Inr cohort_results))))))"

subsection \<open>Floating-point means\<close>

text \<open>
  Rounding of a rational to the nearest number with a mantissa of 53 bits, ties to the
  even mantissa: the rounding of every floating-point operation, for results in the range
  of the normal numbers. \<open>normalise\<close> scales a positive number into the range from
  \<open>2 ^ 52\<close> up to \<open>2 ^ 53\<close> and returns it with the unit it was scaled by.
\<close>

definition round_half_even :: "rat \<Rightarrow> int" where
  "round_half_even x =
     (let f = \<lfloor>x\<rfloor>; d = x - of_int f
      in if d < 1 / 2 then f else if 1 / 2 < d then f + 1 else if even f then f else f + 1)"

fun normalise :: "nat \<Rightarrow> rat \<Rightarrow> rat \<Rightarrow> rat \<times> rat" where
  "normalise 0 x u = (x, u)"
| "normalise (Suc n) x u =
     (if 2 ^ 53 \<le> x then normalise n (x / 2) (u * 2)
      else if x < 2 ^ 52 then normalise n (x * 2) (u / 2)
      else (x, u))"

definition round_to_f64 :: "rat \<Rightarrow> rat" where
  "round_to_f64 x =
     (if x = 0 then 0
      else (case normalise 2200 \<bar>x\<bar> 1 of
              (m, u) \<Rightarrow> sgn x * of_int (round_half_even m) * u))"

text \<open>
  The mean as a rounded sum divided by the count, the sum taken from left to right. On
  a list of one or two numbers, and on a list whose partial sums are all exact, the order
  of the sum plays no part.
\<close>

definition f64_mean :: "rat list \<Rightarrow> rat" where
  "f64_mean xs =
     round_to_f64 (foldl (\<lambda>s x. round_to_f64 (s + x)) 0 xs / of_nat (length xs))"

definition f64_engine :: engine where
  "f64_engine = \<lparr>float_mean = f64_mean, text_mean = Some None\<rparr>"

subsection \<open>Sample inputs\<close>

text \<open>A row of a frame with the three columns of the query.\<close>

definition row :: "rat \<Rightarrow> rat \<Rightarrow> rat \<Rightarrow> string \<Rightarrow> rat option" where
  "row b g a = (\<lambda>c. if c = ''BMI'' then Some b else if c = ''Glucose'' then Some g else Some a)"

text \<open>
  Five rows within the range of the filter, three of them in the same category and one
  of these with no glucose value, a sixth row above the range, and a seventh row with no
  BMI.
\<close>

definition sample_frame :: frame where
  "sample_frame =
     \<lparr>schema = [(''BMI'', Float64), (''Glucose'', Int64), (''Age'', Int64)],
      rows = [row 17 100 20, row 22 120 30, row 35 140 40, row 23 100 50,
              (row 24 0 40)(''Glucose'' := None), row 70 999 99,
              (row 0 90 60)(''BMI'' := None)]\<rparr>"

definition sample_fs :: filesystem where
  "sample_fs = [''patients_large.csv'' \<mapsto> Delimited sample_frame]"

text \<open>A delimited file whose header has no \<open>BMI\<close> column.\<close>

definition no_bmi_frame :: frame where
  "no_bmi_frame = \<lparr>schema = [(''Glucose'', Int64), (''Age'', Int64)], rows = [row 0 100 20]\<rparr>"

definition no_bmi_fs :: filesystem where
  "no_bmi_fs = [''patients_large.csv'' \<mapsto> Delimited no_bmi_frame]"

text \<open>
  The floating-point numbers nearest to 0.1 and 0.2, and two rows of one category with
  these glucose values.
\<close>

definition f64_tenth :: rat where
  "f64_tenth = 3602879701896397 / 2 ^ 55"

definition f64_fifth :: rat where
  "f64_fifth = 3602879701896397 / 2 ^ 54"



text \<open>A delimited file that has the header and no rows.\<close>

definition header_only_frame :: frame where
  "header_only_frame =
     \<lparr>schema = [(''BMI'', Utf8), (''Glucose'', Utf8), (''Age'', Utf8)], rows = []\<rparr>"

definition header_only_fs :: filesystem where
  "header_only_fs = [''patients_large.csv'' \<mapsto> Delimited header_only_frame]"

section \<open>Patient data cleaner (patient\_data\_cleaner.py)\<close>

subsection \<open>Strings and the built-in functions on them\<close>

text \<open>
  A Python string is a sequence of code points. \<open>str\<close> embeds a literal of ASCII
  characters.
\<close>

type_synonym pystr = "nat list"

definition str :: "string \<Rightarrow> pystr" where
  "str s = map of_char s"

text \<open>
  \<open>title\<close> and \<open>int\<close> are built into the interpreter and read the Unicode character
  database. What they read is a parameter of the model: the full title-case and lower-case
  mappings of a code point, the properties \<open>Cased\<close> and \<open>Case_Ignorable\<close>, and the
  conversion of a string to an integer.
\<close>

record runtime =
  to_title :: "nat \<Rightarrow> nat list"
  to_lower :: "nat \<Rightarrow> nat list"
  is_cased :: "nat \<Rightarrow> bool"
  is_case_ignorable :: "nat \<Rightarrow> bool"
  int_of_str :: "pystr \<Rightarrow> int option"

text \<open>
  \<open>str.title\<close>, as the interpreter computes it: a code point that follows a cased code
  point is mapped to lower case, any other to title case, and whether a code point is
  cased is read from the input, not from the output. The lower-case mapping of capital
  sigma (U+03A3) depends on the code points around it; \<open>left\<close> holds the code points to
  the left of it, the nearest first, \<open>right\<close> those to the right.
\<close>

definition handle_capital_sigma :: "runtime \<Rightarrow> nat list \<Rightarrow> nat list \<Rightarrow> nat" where
  "handle_capital_sigma rt left right =
     (let final_sigma =
        (case dropWhile (is_case_ignorable rt) left of
           [] \<Rightarrow> False
         | c # _ \<Rightarrow> is_cased rt c) \<and>
        (case dropWhile (is_case_ignorable rt) right of
           [] \<Rightarrow> True
         | c # _ \<Rightarrow> \<not> is_cased rt c)
      in if final_sigma then 0x3C2 else 0x3C3)"

definition lower_ucs4 :: "runtime \<Rightarrow> nat list \<Rightarrow> nat list \<Rightarrow> nat \<Rightarrow> nat list" where
  "lower_ucs4 rt left right c =
     (if c = 0x3A3 then [handle_capital_sigma rt left right] else to_lower rt c)"

fun do_title :: "runtime \<Rightarrow> nat list \<Rightarrow> bool \<Rightarrow> pystr \<Rightarrow> pystr" where
  "do_title rt left previous_is_cased [] = []"
| "do_title rt left previous_is_cased (c # cs) =
     (if previous_is_cased then lower_ucs4 rt left cs c else to_title rt c)
     @ do_title rt (c # left) (is_cased rt c) cs"

definition title :: "runtime \<Rightarrow> pystr \<Rightarrow> pystr" where
  "title rt s = do_title rt [] False s"

subsection \<open>Values, dictionaries and references\<close>

text \<open>
  The values that \<open>json.load\<close> produces. A float is a rational: infinities and NaN are
  outside the model.
\<close>

datatype json =
    JNull | JBool bool | JInt int | JFloat rat | JStr pystr
  | JArr "json list" | JObj "(pystr \<times> json) list"

text \<open>
  A dictionary lists its items in insertion order, each key once. Assigning to a key
  replaces the value in place, or adds the item at the end.
\<close>

type_synonym pydict = "(pystr \<times> json) list"

definition dict_get :: "pydict \<Rightarrow> pystr \<Rightarrow> json \<Rightarrow> json" where
  "dict_get d k dflt = (case map_of d k of None \<Rightarrow> dflt | Some v \<Rightarrow> v)"

definition dict_set :: "pydict \<Rightarrow> pystr \<Rightarrow> json \<Rightarrow> pydict" where
  "dict_set d k v = AList.update k v d"

text \<open>
  The list handed to \<open>clean_patient_data\<close> holds references to dictionaries; the heap
  gives the dictionary behind each reference.
\<close>

type_synonym ref = nat

type_synonym heap = "ref \<Rightarrow> pydict"

subsection \<open>The statements of the loop body\<close>

text \<open>\<open>int(x)\<close>: truncation of a float towards zero, conversion of a string by the runtime.\<close>

definition py_int :: "runtime \<Rightarrow> json \<Rightarrow> error + int" where
  "py_int rt v =
     (case v of
        JInt n \<Rightarrow> Inr n
      | JBool b \<Rightarrow> Inr (if b then 1 else 0)
      | JFloat r \<Rightarrow> Inr (if 0 \<le> r then \<lfloor>r\<rfloor> else \<lceil>r\<rceil>)
      | JStr s \<Rightarrow> (case int_of_str rt s of None \<Rightarrow> Inl ValueError | Some n \<Rightarrow> Inr n)
      | _ \<Rightarrow> Inl TypeError)"

text \<open>Line 85: \<open>patient['name'] = patient['name'].title()\<close>.\<close>

definition title_name :: "runtime \<Rightarrow> pydict \<Rightarrow> error + pydict" where
  "title_name rt d =
     (case map_of d (str ''name'') of
        None \<Rightarrow> Inl KeyError
      | Some (JStr s) \<Rightarrow> Inr (dict_set d (str ''name'') (JStr (title rt s)))
      | Some _ \<Rightarrow> Inl AttributeError)"

text \<open>Line 89: \<open>patient['age'] = int(patient.get('age', 0))\<close>.\<close>

definition coerce_age :: "runtime \<Rightarrow> pydict \<Rightarrow> error + pydict" where
  "coerce_age rt d =
     (case py_int rt (dict_get d (str ''age'') (JInt 0)) of
        Inl e \<Rightarrow> Inl e
      | Inr n \<Rightarrow> Inr (dict_set d (str ''age'') (JInt n)))"

text \<open>Line 97: \<open>patient['age'] >= 18\<close>, read after line 89 has stored an integer.\<close>

definition age_ge_18 :: "pydict \<Rightarrow> bool" where
  "age_ge_18 d = (case map_of d (str ''age'') of Some (JInt n) \<Rightarrow> 18 \<le> n | _ \<Rightarrow> False)"

text \<open>
  Line 100: \<open>tuple(sorted(patient.items()))\<close>. The items are pairs with distinct keys, so
  sorting them compares keys only.
\<close>

definition sorted_items :: "pydict \<Rightarrow> (pystr \<times> json) list" where
  "sorted_items d = sort_key fst d"

text \<open>
  Lines 101 and 102 hash the tuple and compare it with the tuples of the set. Lists and
  dictionaries cannot be hashed. Numbers are equal across \<open>bool\<close>, \<open>int\<close> and \<open>float\<close>
  when their values are.
\<close>

fun hashable :: "json \<Rightarrow> bool" where
  "hashable (JArr _) = False"
| "hashable (JObj _) = False"
| "hashable _ = True"

fun num_of :: "json \<Rightarrow> rat option" where
  "num_of (JBool b) = Some (if b then 1 else 0)"
| "num_of (JInt n) = Some (of_int n)"
| "num_of (JFloat r) = Some r"
| "num_of _ = None"

definition py_eq :: "json \<Rightarrow> json \<Rightarrow> bool" where
  "py_eq x y =
     (case (num_of x, num_of y) of
        (Some a, Some b) \<Rightarrow> a = b
      | (None, None) \<Rightarrow> x = y
      | _ \<Rightarrow> False)"

definition item_eq :: "pystr \<times> json \<Rightarrow> pystr \<times> json \<Rightarrow> bool" where
  "item_eq x y = (fst x = fst y \<and> py_eq (snd x) (snd y))"

definition tuple_eq :: "(pystr \<times> json) list \<Rightarrow> (pystr \<times> json) list \<Rightarrow> bool" where
  "tuple_eq t u = list_all2 item_eq t u"

definition patient_tuple :: "pydict \<Rightarrow> error + (pystr \<times> json) list" where
  "patient_tuple d =
     (if list_all (\<lambda>x. hashable (snd x)) d then Inr (sorted_items d) else Inl TypeError)"

definition tuple_in :: "(pystr \<times> json) list \<Rightarrow> (pystr \<times> json) list list \<Rightarrow> bool" where
  "tuple_in t seen = list_ex (tuple_eq t) seen"

subsection \<open>clean\_patient\_data\<close>

text \<open>
  The loop of lines 82 to 103, with the heap, the set \<open>seen\<close> and the list
  \<open>cleaned_patients\<close> passed along. Each assignment writes into the dictionary behind the
  reference; an exception leaves with the heap as it is at that statement.
\<close>

fun clean_loop ::
  "runtime \<Rightarrow> ref list \<Rightarrow> heap \<Rightarrow> (pystr \<times> json) list list \<Rightarrow> ref list \<Rightarrow> heap \<times> (error + ref list)"
where
  "clean_loop rt [] h seen cleaned_patients = (h, Inr cleaned_patients)"
| "clean_loop rt (patient # patients) h seen cleaned_patients =
     (case title_name rt (h patient) of
        Inl e \<Rightarrow> (h, Inl e)
      | Inr d1 \<Rightarrow>
         (let h1 = h(patient := d1) in
          (case coerce_age rt (h1 patient) of
             Inl e \<Rightarrow> (h1, Inl e)
           | Inr d2 \<Rightarrow>
              (let h2 = h1(patient := d2) in
               if age_ge_18 (h2 patient) then
                 (case patient_tuple (h2 patient) of
                    Inl e \<Rightarrow> (h2, Inl e)
                  | Inr t \<Rightarrow>
                     if \<not> tuple_in t seen
                     then clean_loop rt patients h2 (t # seen) (cleaned_patients @ [patient])
                     else clean_loop rt patients h2 seen cleaned_patients)
               else clean_loop rt patients h2 seen cleaned_patients))))"

definition clean_patient_data :: "runtime \<Rightarrow> heap \<Rightarrow> ref list \<Rightarrow> heap \<times> (error + ref list)" where
  "clean_patient_data rt h patients =
     (case clean_loop rt patients h [] [] of
        (h', Inl e) \<Rightarrow> (h', Inl e)
      | (h', Inr cleaned_patients) \<Rightarrow>
          (h', Inr (if cleaned_patients = [] then [] else cleaned_patients)))"

subsection \<open>What the claims speak of\<close>

text \<open>
  Two records are identical in all fields when they have the same keys and equal values
  under each key. The order of the items plays no part.
\<close>

definition same_fields :: "pydict \<Rightarrow> pydict \<Rightarrow> bool" where
  "same_fields d e =
     (list_all (\<lambda>x. case map_of e (fst x) of None \<Rightarrow> False | Some w \<Rightarrow> py_eq (snd x) w) d \<and>
      list_all (\<lambda>y. map_of d (fst y) \<noteq> None) e)"

text \<open>
  A record survives when its age is at least 18 and no record before it in the list is
  at least 18 and identical to it in all fields.
\<close>

definition survives :: "heap \<Rightarrow> ref list \<Rightarrow> ref \<Rightarrow> bool" where
  "survives h ps a =
     (age_ge_18 (h a) \<and>
      list_all (\<lambda>b. age_ge_18 (h b) \<longrightarrow> \<not> same_fields (h a) (h b)) (takeWhile (\<lambda>x. x \<noteq> a) ps))"

text \<open>
  The loop on a heap that no longer changes: which references it appends, given the set
  \<open>seen\<close> it starts from.
\<close>

fun kept :: "heap \<Rightarrow> (pystr \<times> json) list list \<Rightarrow> ref list \<Rightarrow> ref list" where
  "kept h seen [] = []"
| "kept h seen (a # as) =
     (if age_ge_18 (h a) \<and> \<not> tuple_in (sorted_items (h a)) seen
      then a # kept h (sorted_items (h a) # seen) as
      else kept h seen as)"

text \<open>Both assignments of the loop body, applied to one dictionary.\<close>

definition normalize :: "runtime \<Rightarrow> pydict \<Rightarrow> error + pydict" where
  "normalize rt d = (case title_name rt d of Inl e \<Rightarrow> Inl e | Inr d1 \<Rightarrow> coerce_age rt d1)"

subsection \<open>Case-stable code points and the built-in functions on ASCII\<close>

definition ascii_upper :: "nat \<Rightarrow> nat" where
  "ascii_upper c = (if 97 \<le> c \<and> c \<le> 122 then c - 32 else c)"

definition ascii_lower :: "nat \<Rightarrow> nat" where
  "ascii_lower c = (if 65 \<le> c \<and> c \<le> 90 then c + 32 else c)"

definition ascii_letter :: "nat \<Rightarrow> bool" where
  "ascii_letter c = (65 \<le> c \<and> c \<le> 90 \<or> 97 \<le> c \<and> c \<le> 122)"

text \<open>A runtime whose case mappings are those of Unicode on the code points below 128.\<close>

definition ascii_conformant :: "runtime \<Rightarrow> bool" where
  "ascii_conformant rt =
     (\<forall>c<128. to_title rt c = [ascii_upper c] \<and> to_lower rt c = [ascii_lower c] \<and>
        is_cased rt c = ascii_letter c)"

text \<open>
  A code point is case-stable when its title-case mapping is one code point that is its
  own title case, its lower-case mapping is one code point that is its own lower case,
  and both are cased exactly when the code point is. Capital sigma has two lower-case
  forms, and both are to be stable.
\<close>

definition lower_stable :: "runtime \<Rightarrow> nat \<Rightarrow> nat \<Rightarrow> bool" where
  "lower_stable rt c l = (l \<noteq> 0x3A3 \<and> to_lower rt l = [l] \<and> is_cased rt l = is_cased rt c)"

definition case_stable :: "runtime \<Rightarrow> nat \<Rightarrow> bool" where
  "case_stable rt c =
     ((case to_title rt c of
         [t] \<Rightarrow> to_title rt t = [t] \<and> is_cased rt t = is_cased rt c
       | _ \<Rightarrow> False) \<and>
      (if c = 0x3A3 then lower_stable rt c 0x3C2 \<and> lower_stable rt c 0x3C3
       else (case to_lower rt c of [l] \<Rightarrow> lower_stable rt c l | _ \<Rightarrow> False)))"

text \<open>
  \<open>int\<close> on a string of ASCII code points: white space around an optional sign and
  decimal digits, single underscores between digits, at most 4300 digits.
\<close>

definition is_digit :: "nat \<Rightarrow> bool" where
  "is_digit c = (48 \<le> c \<and> c \<le> 57)"

definition is_space :: "nat \<Rightarrow> bool" where
  "is_space c = (c = 32 \<or> 9 \<le> c \<and> c \<le> 13)"

definition strip :: "pystr \<Rightarrow> pystr" where
  "strip s = rev (dropWhile is_space (rev (dropWhile is_space s)))"

fun single_underscores :: "pystr \<Rightarrow> bool" where
  "single_underscores (c # d # cs) = (\<not> (c = 95 \<and> d = 95) \<and> single_underscores (d # cs))"
| "single_underscores _ = True"

definition digits_value :: "pystr \<Rightarrow> int option" where
  "digits_value body =
     (if body \<noteq> [] \<and> list_all (\<lambda>c. is_digit c \<or> c = 95) body \<and> is_digit (hd body) \<and>
         is_digit (last body) \<and> single_underscores body \<and>
         length (filter is_digit body) \<le> 4300
      then Some (int (foldl (\<lambda>n c. 10 * n + (c - 48)) 0 (filter is_digit body)))
      else None)"

definition ascii_int :: "pystr \<Rightarrow> int option" where
  "ascii_int s =
     (if list_all (\<lambda>c. c < 128) s then
        (case strip s of
           [] \<Rightarrow> None
         | c # cs \<Rightarrow>
            if c = 45 then map_option uminus (digits_value cs)
            else if c = 43 then digits_value cs
            else digits_value (c # cs))
      else None)"

text \<open>
  A runtime for evaluation. It agrees with the interpreter on the code points below 128,
  on capital and small e with acute (U+00C9, U+00E9), on capital I with dot above
  (U+0130) and on the combining dot above (U+0307); it takes every other code point as
  caseless and rejects it in a number, so it stands for the interpreter on strings of the
  code points named only.
\<close>

definition sample_runtime :: runtime where
  "sample_runtime =
     \<lparr>to_title = (\<lambda>c. if c < 128 then [ascii_upper c] else if c = 0xE9 then [0xC9] else [c]),
      to_lower = (\<lambda>c. if c < 128 then [ascii_lower c] else if c = 0x130 then [0x69, 0x307]
                       else if c = 0xC9 then [0xE9] else [c]),
      is_cased = (\<lambda>c. if c < 128 then ascii_letter c else c = 0x130 \<or> c = 0xC9 \<or> c = 0xE9),
      is_case_ignorable = (\<lambda>c. c \<in> {0x27, 0x2E, 0x3A, 0x5E, 0x60, 0x307}),
      int_of_str = ascii_int\<rparr>"

subsection \<open>Sample records\<close>

definition patient_record :: "string \<Rightarrow> json \<Rightarrow> string \<Rightarrow> string \<Rightarrow> pydict" where
  "patient_record name age gender diagnosis =
     [(str ''name'', JStr (str name)), (str ''age'', age),
      (str ''gender'', JStr (str gender)), (str ''diagnosis'', JStr (str diagnosis))]"

text \<open>
  Five records: an adult with the age as a string, a minor, the first record once more
  in its cleaned form and with its items in another order, the first record with another
  diagnosis, and a patient of exactly 18. A sixth record, under reference 16, has no age.
\<close>

definition sample_heap :: heap where
  "sample_heap r =
     (if r = 10 then patient_record ''john smith'' (JStr (str ''32'')) ''male'' ''flu''
      else if r = 11 then patient_record ''jane doe'' (JInt 17) ''female'' ''cold''
      else if r = 12 then
        [(str ''diagnosis'', JStr (str ''flu'')), (str ''gender'', JStr (str ''male'')),
         (str ''age'', JFloat 32), (str ''name'', JStr (str ''John Smith''))]
      else if r = 13 then patient_record ''john smith'' (JStr (str ''32'')) ''male'' ''asthma''
      else if r = 14 then patient_record ''amy o'' (JStr (str '' 18 '')) ''female'' ''flu''
      else if r = 16 then
        [(str ''name'', JStr (str ''bob'')), (str ''gender'', JStr (str ''male'')),
         (str ''diagnosis'', JStr (str ''flu''))]
      else [])"

text \<open>The name jose in small letters, its last letter the e with acute.\<close>

definition jose :: pystr where
  "jose = [0x6A, 0x6F, 0x73, 0xE9]"

text \<open>The name DILEK in capitals, its second letter the capital I with dot above.\<close>

definition dilek :: pystr where
  "dilek = [0x44, 0x130, 0x4C, 0x45, 0x4B]"

definition sample_refs :: "ref list" where
  "sample_refs = [10, 11, 12, 13, 14]"

definition cleaned_heap :: heap where
  "cleaned_heap = fst (clean_patient_data sample_runtime sample_heap sample_refs)"

section \<open>Properties of the cohort analysis\<close>

subsection \<open>Grouped counts\<close>

lemma sum_list_indicator:
  "distinct ks \<Longrightarrow> a \<in> set ks \<Longrightarrow> (\<Sum>k\<leftarrow>ks. if a = k then 1 else 0) = (1::nat)"
proof (induction ks)
  case Nil then show ?case by simp
next
  case (Cons k ks)
  show ?case
  proof (cases "a = k")
    case True
    with Cons.prems have "a \<notin> set ks" by simp
    then have "(\<Sum>k\<leftarrow>ks. if a = k then 1 else 0) = (0::nat)"
      by (induction ks) auto
    with True show ?thesis by simp
  next
    case False
    with Cons show ?thesis by simp
  qed
qed

lemma sum_fibres:
  "distinct ks \<Longrightarrow> f ` set xs \<subseteq> set ks \<Longrightarrow>
   (\<Sum>k\<leftarrow>ks. length (filter (\<lambda>x. f x = k) xs)) = length xs"
proof (induction xs)
  case Nil then show ?case by simp
next
  case (Cons x xs)
  have "(\<Sum>k\<leftarrow>ks. length (filter (\<lambda>y. f y = k) (x # xs)))
      = (\<Sum>k\<leftarrow>ks. (if f x = k then 1 else 0) + length (filter (\<lambda>y. f y = k) xs))"
    by (rule arg_cong[where f=sum_list]) (auto)
  also have "\<dots> = (\<Sum>k\<leftarrow>ks. (if f x = k then 1 else 0)) + (\<Sum>k\<leftarrow>ks. length (filter (\<lambda>y. f y = k) xs))"
    by (simp add: sum_list_addf)
  also have "(\<Sum>k\<leftarrow>ks. (if f x = k then 1 else 0)) = (1::nat)"
    using Cons.prems by (intro sum_list_indicator) auto
  finally show ?case using Cons by simp
qed

lemma count_total: "(\<Sum>c\<leftarrow>group_by_agg eng tg ta ls. patient_count c) = length ls"
proof -
  have "(\<Sum>c\<leftarrow>group_by_agg eng tg ta ls. patient_count c)
      = (\<Sum>k\<leftarrow>remdups (map fst ls). length (filter (\<lambda>l. fst l = k) ls))"
    by (simp add: group_by_agg_def agg_def comp_def)
  also have "\<dots> = length ls"
    by (rule sum_fibres) auto
  finally show ?thesis .
qed

subsection \<open>The rows the filter keeps\<close>

lemma filter_bmi_rows: "map snd (filter_bmi rs) = filter kept_row rs"
  by (induction rs)
     (auto simp: filter_bmi_def kept_row_def bmi_in_range_def List.map_filter_simps
       split: option.splits)

lemma filter_bmi_filter: "filter_bmi (filter kept_row rs) = filter_bmi rs"
  by (induction rs)
     (auto simp: filter_bmi_def kept_row_def bmi_in_range_def List.map_filter_simps
       split: option.splits)

subsection \<open>Runs of the query\<close>

lemma collect_Inr:
  "collect eng df = Inr cs \<longleftrightarrow>
     (\<exists>tb tg ta. map_of (schema df) ''BMI'' = Some tb \<and> map_of (schema df) ''Glucose'' = Some tg \<and>
        map_of (schema df) ''Age'' = Some ta \<and> numeric tb \<and>
        mean_supported eng tg \<and> mean_supported eng ta \<and>
        cs = group_by_agg eng tg ta (with_bmi_range (select_columns (filter_bmi (rows df)))))"
  by (auto simp: collect_def split: option.splits)

lemma collect_error:
  "collect eng df = Inl e \<Longrightarrow> e = ColumnNotFoundError \<or> e = InvalidOperationError"
  by (auto simp: collect_def split: option.splits if_splits)

lemma analyze_delimited:
  "fs input_file = Some (Delimited df) \<Longrightarrow>
   analyze_patient_cohorts eng fs input_file =
     (case collect eng df of
        Inl e \<Rightarrow> (fs(parquet_file \<mapsto> Columnar df), Inl e)
      | Inr cs \<Rightarrow> (fs(parquet_file := None), Inr cs))"
  by (simp add: analyze_patient_cohorts_def exists_path_def read_csv_def write_parquet_def
      scan_parquet_def remove_def split: sum.splits)

lemma analyze_not_delimited:
  "fs input_file = Some e \<Longrightarrow> \<forall>df. e \<noteq> Delimited df \<Longrightarrow>
   analyze_patient_cohorts eng fs input_file = (fs, Inl ComputeError)"
  by (cases e) (simp_all add: analyze_patient_cohorts_def exists_path_def read_csv_def)

lemma analyze_Inr:
  assumes "fs input_file = Some (Delimited df)"
    and "snd (analyze_patient_cohorts eng fs input_file) = Inr cs"
  shows "collect eng df = Inr cs"
  using assms(2)
  by (simp add: analyze_delimited[of fs input_file df, OF assms(1)] split: sum.splits)

text \<open>With three numeric columns the query runs, whatever the rows are.\<close>

lemma analyze_returns:
  assumes "fs input_file = Some (Delimited df)"
    and "map_of (schema df) ''BMI'' = Some tb" and "numeric tb"
    and "map_of (schema df) ''Glucose'' = Some tg" and "numeric tg"
    and "map_of (schema df) ''Age'' = Some ta" and "numeric ta"
  shows "\<exists>cs. snd (analyze_patient_cohorts eng fs input_file) = Inr cs"
  using assms(2-)
  by (simp add: analyze_delimited[of fs input_file df, OF assms(1)] collect_def mean_supported_def)

subsection \<open>Evaluation of the floating-point mean\<close>

lemma normalise_numeral:
  "normalise (numeral k) x u =
     (if 2 ^ 53 \<le> x then normalise (pred_numeral k) (x / 2) (u * 2)
      else if x < 2 ^ 52 then normalise (pred_numeral k) (x * 2) (u / 2)
      else (x, u))"
  by (simp add: numeral_eq_Suc)

lemma floor_numeral_quotient: "\<lfloor>numeral a / numeral b :: rat\<rfloor> = numeral a div numeral b"
  using floor_divide_of_int_eq[of "numeral a" "numeral b", where ?'a = rat] by simp

lemmas f64_simps = f64_mean_def round_to_f64_def normalise_numeral round_half_even_def Let_def
  floor_numeral_quotient

lemma sample_means:
  "f64_mean [120, 100] = 110" "f64_mean [30, 50, 40] = 40" "f64_mean [30, 40] = 35"
  "f64_mean [100] = 100" "f64_mean [20] = 20" "f64_mean [140] = 140" "f64_mean [40] = 40"
  "f64_mean [f64_tenth, f64_fifth] = 10808639105689192 / 2 ^ 56"
  by (simp_all add: f64_simps f64_tenth_def f64_fifth_def)

subsection \<open>The sample runs\<close>

lemma sample_row_simps:
  "row b g a ''BMI'' = Some b" "row b g a ''Glucose'' = Some g" "row b g a ''Age'' = Some a"
  by (simp_all add: row_def)

lemmas query_simps = collect_def filter_bmi_def select_columns_def to_patient_def
  group_by_agg_def with_bmi_range_def agg_def mean_of_def mean_supported_def numeric_def
  bmi_in_range_def bmi_range_of_def List.map_filter_simps sample_row_simps f64_engine_def

lemma sample_result:
  "analyze_patient_cohorts f64_engine sample_fs ''patients_large.csv'' =
     (sample_fs,
      Inr [\<lparr>bmi_range = ''Underweight'', avg_glucose = Some 100, patient_count = 1, avg_age = Some 20\<rparr>,
           \<lparr>bmi_range = ''Obese'', avg_glucose = Some 140, patient_count = 1, avg_age = Some 40\<rparr>,
           \<lparr>bmi_range = ''Normal'', avg_glucose = Some 110, patient_count = 3, avg_age = Some 40\<rparr>])"
proof -
  have f: "sample_fs ''patients_large.csv'' = Some (Delimited sample_frame)"
    by (simp add: sample_fs_def)
  have c: "collect f64_engine sample_frame =
      Inr [\<lparr>bmi_range = ''Underweight'', avg_glucose = Some 100, patient_count = 1, avg_age = Some 20\<rparr>,
           \<lparr>bmi_range = ''Obese'', avg_glucose = Some 140, patient_count = 1, avg_age = Some 40\<rparr>,
           \<lparr>bmi_range = ''Normal'', avg_glucose = Some 110, patient_count = 3, avg_age = Some 40\<rparr>]"
    by (simp add: query_simps sample_frame_def sample_means)
  have e: "sample_fs(parquet_file := None) = sample_fs"
    by (simp add: sample_fs_def parquet_file_def fun_eq_iff)
  show ?thesis
    by (simp add: analyze_delimited[of sample_fs _ sample_frame, OF f] c e)
qed


text \<open>
  On a file that has the header and no rows the reader types the columns as text, the
  comparison of \<open>BMI\<close> with a number is refused, and the parquet file stays.
\<close>

lemma header_only_fails:
  "analyze_patient_cohorts eng header_only_fs ''patients_large.csv'' =
     (header_only_fs(parquet_file \<mapsto> Columnar header_only_frame), Inl InvalidOperationError)"
proof -
  have f: "header_only_fs ''patients_large.csv'' = Some (Delimited header_only_frame)"
    by (simp add: header_only_fs_def)
  have c: "collect eng header_only_frame = Inl InvalidOperationError"
    by (simp add: collect_def header_only_frame_def numeric_def)
  show ?thesis
    by (simp add: analyze_delimited[of header_only_fs _ header_only_frame, OF f] c)
qed

subsection \<open>The label of a BMI value\<close>

text \<open>
  Claim C1. The label derived from a BMI value \<open>b\<close> is \<open>Underweight\<close> when \<open>b < 18.5\<close>,
  \<open>Normal\<close> when \<open>18.5 \<le> b < 25\<close>, \<open>Overweight\<close> when \<open>25 \<le> b < 30\<close> and \<open>Obese\<close> when
  \<open>30 \<le> b\<close>; it is one of these four labels for every \<open>b\<close>, and the label column of the
  query holds this label of each row's BMI.
\<close>

theorem bmi_range_of_partition:
  "(b < 37 / 2 \<longrightarrow> bmi_range_of b = ''Underweight'') \<and>
   (37 / 2 \<le> b \<and> b < 25 \<longrightarrow> bmi_range_of b = ''Normal'') \<and>
   (25 \<le> b \<and> b < 30 \<longrightarrow> bmi_range_of b = ''Overweight'') \<and>
   (30 \<le> b \<longrightarrow> bmi_range_of b = ''Obese'') \<and>
   bmi_range_of b \<in> {''Underweight'', ''Normal'', ''Overweight'', ''Obese''} \<and>
   map fst (with_bmi_range ps) = map (\<lambda>p. bmi_range_of (BMI p)) ps"
  by (simp add: bmi_range_of_def with_bmi_range_def comp_def)

theorem bmi_range_of_partition_witness:
  "bmi_range_of 10 = ''Underweight'' \<and> bmi_range_of (37 / 2) = ''Normal'' \<and>
   bmi_range_of 25 = ''Overweight'' \<and> bmi_range_of 30 = ''Obese'' \<and>
   bmi_range_of 60 = ''Obese''"
  using bmi_range_of_partition [of 10 "[]"] bmi_range_of_partition [of "37 / 2" "[]"]
    bmi_range_of_partition [of 25 "[]"] bmi_range_of_partition [of 30 "[]"]
    bmi_range_of_partition [of 60 "[]"]
  by simp

subsection \<open>The counts add up to the rows within the BMI range\<close>

text \<open>
  Claim C3. In a run that returns a result, the \<open>patient_count\<close> values of its rows add up
  to the number of input rows whose BMI is a number in the closed range from 10 to 60,
  and the result is the one the query gives on the table without the other rows: a row
  with a BMI below 10, above 60 or null contributes to no aggregate.
\<close>

theorem patient_count_total:
  assumes "fs input_file = Some (Delimited df)"
    and "snd (analyze_patient_cohorts eng fs input_file) = Inr cs"
  shows "sum_list (map patient_count cs) =
        length (filter (\<lambda>r. case r ''BMI'' of None \<Rightarrow> False | Some b \<Rightarrow> 10 \<le> b \<and> b \<le> 60)
          (rows df)) \<and>
      collect eng
        (df\<lparr>rows := filter (\<lambda>r. case r ''BMI'' of None \<Rightarrow> False | Some b \<Rightarrow> 10 \<le> b \<and> b \<le> 60)
           (rows df)\<rparr>) = Inr cs"
proof -
  have c: "collect eng df = Inr cs"
    using assms by (rule analyze_Inr)
  then obtain tg ta where
    cs: "cs = group_by_agg eng tg ta (with_bmi_range (select_columns (filter_bmi (rows df))))"
    unfolding collect_Inr by blast
  have "sum_list (map patient_count cs) = length (map snd (filter_bmi (rows df)))"
    by (simp add: cs count_total with_bmi_range_def select_columns_def)
  then have n: "sum_list (map patient_count cs) = length (filter kept_row (rows df))"
    by (simp only: filter_bmi_rows)
  have d: "collect eng (df\<lparr>rows := filter kept_row (rows df)\<rparr>) = Inr cs"
    using c by (simp add: collect_Inr filter_bmi_filter)
  have k: "kept_row = (\<lambda>r. case r ''BMI'' of None \<Rightarrow> False | Some b \<Rightarrow> 10 \<le> b \<and> b \<le> 60)"
    by (rule ext) (simp add: kept_row_def)
  show ?thesis
    using n d unfolding k by blast
qed

theorem patient_count_total_witness:
  "snd (analyze_patient_cohorts f64_engine sample_fs ''patients_large.csv'') =
     Inr [\<lparr>bmi_range = ''Underweight'', avg_glucose = Some 100, patient_count = 1, avg_age = Some 20\<rparr>,
          \<lparr>bmi_range = ''Obese'', avg_glucose = Some 140, patient_count = 1, avg_age = Some 40\<rparr>,
          \<lparr>bmi_range = ''Normal'', avg_glucose = Some 110, patient_count = 3, avg_age = Some 40\<rparr>] \<and>
   length (filter (\<lambda>r. case r ''BMI'' of None \<Rightarrow> False | Some b \<Rightarrow> 10 \<le> b \<and> b \<le> 60)
     (rows sample_frame)) = 5 \<and>
   length (rows sample_frame) = 7"
proof -
  let ?cs = "[\<lparr>bmi_range = ''Underweight'', avg_glucose = Some 100, patient_count = 1, avg_age = Some 20\<rparr>,
          \<lparr>bmi_range = ''Obese'', avg_glucose = Some 140, patient_count = 1, avg_age = Some 40\<rparr>,
          \<lparr>bmi_range = ''Normal'', avg_glucose = Some 110, patient_count = 3, avg_age = Some (40::rat)\<rparr>]"
  have f: "sample_fs ''patients_large.csv'' = Some (Delimited sample_frame)"
    by (simp add: sample_fs_def)
  have r: "snd (analyze_patient_cohorts f64_engine sample_fs ''patients_large.csv'') = Inr ?cs"
    by (simp add: sample_result)
  have "sum_list (map patient_count ?cs) =
      length (filter (\<lambda>r. case r ''BMI'' of None \<Rightarrow> False | Some b \<Rightarrow> 10 \<le> b \<and> b \<le> 60)
        (rows sample_frame))"
    using patient_count_total [of sample_fs "''patients_large.csv''" sample_frame f64_engine ?cs, OF f r]
    by blast
  then show ?thesis
    using r by (simp add: sample_frame_def)
qed

subsection \<open>The means of a group\<close>








subsection \<open>A missing input file\<close>

text \<open>
  Claim C7. When the input path does not exist the analysis fails with the not-found
  error and leaves the file system as it was, so no parquet file has been written; when
  the path exists the analysis does not fail with the not-found error.
\<close>

theorem not_found_before_processing:
  "(\<not> exists_path fs input_file \<longrightarrow>
      analyze_patient_cohorts eng fs input_file = (fs, Inl FileNotFoundError)) \<and>
   (exists_path fs input_file \<longrightarrow>
      snd (analyze_patient_cohorts eng fs input_file) \<noteq> Inl FileNotFoundError)"
proof (intro conjI impI)
  assume "\<not> exists_path fs input_file"
  then show "analyze_patient_cohorts eng fs input_file = (fs, Inl FileNotFoundError)"
    by (simp add: analyze_patient_cohorts_def)
next
  assume "exists_path fs input_file"
  then obtain e where e: "fs input_file = Some e"
    by (auto simp: exists_path_def)
  show "snd (analyze_patient_cohorts eng fs input_file) \<noteq> Inl FileNotFoundError"
  proof (cases "\<exists>df. e = Delimited df")
    case True
    then obtain df where "fs input_file = Some (Delimited df)" using e by auto
    then show ?thesis
      by (auto simp: analyze_delimited[of fs input_file df] split: sum.splits dest: collect_error)
  next
    case False
    then show ?thesis
      using analyze_not_delimited[of fs input_file e, OF e] by simp
  qed
qed

theorem not_found_before_processing_witness:
  "\<not> exists_path Map.empty ''patients_large.csv'' \<and>
   analyze_patient_cohorts f64_engine Map.empty ''patients_large.csv'' =
     (Map.empty, Inl FileNotFoundError) \<and>
   exists_path sample_fs ''patients_large.csv'' \<and>
   snd (analyze_patient_cohorts f64_engine sample_fs ''patients_large.csv'') \<noteq> Inl FileNotFoundError"
  using not_found_before_processing [of Map.empty "''patients_large.csv''" f64_engine]
    not_found_before_processing [of sample_fs "''patients_large.csv''" f64_engine]
  by (simp add: exists_path_def sample_fs_def)

text \<open>When the function returns a result, the parquet file has been removed.\<close>

lemma parquet_removed_on_success:
  "analyze_patient_cohorts eng fs input_file = (fs', Inr cs) \<Longrightarrow> \<not> exists_path fs' parquet_file"
  by (auto simp: analyze_patient_cohorts_def exists_path_def remove_def write_parquet_def Let_def
      split: if_splits sum.splits)

subsection \<open>The parquet file after a failure\<close>

text \<open>
  Claim C2 says that the parquet file is gone when the function is left, also when a step
  fails. On an input file whose header has no \<open>BMI\<close> column the parquet file did not exist
  before the call, the query fails with the column-not-found error, and the parquet file
  written at line 24 is still there: the removal at lines 51 and 52 is not reached.
\<close>

theorem parquet_left_behind_on_failure:
  "\<not> exists_path no_bmi_fs parquet_file \<and>
   analyze_patient_cohorts eng no_bmi_fs ''patients_large.csv'' =
     (no_bmi_fs(parquet_file \<mapsto> Columnar no_bmi_frame), Inl ColumnNotFoundError) \<and>
   exists_path (fst (analyze_patient_cohorts eng no_bmi_fs ''patients_large.csv'')) parquet_file"
proof -
  have f: "no_bmi_fs ''patients_large.csv'' = Some (Delimited no_bmi_frame)"
    by (simp add: no_bmi_fs_def)
  have c: "collect eng no_bmi_frame = Inl ColumnNotFoundError"
    by (simp add: collect_def no_bmi_frame_def)
  have n: "\<not> exists_path no_bmi_fs parquet_file"
    by (simp add: exists_path_def no_bmi_fs_def parquet_file_def)
  show ?thesis
    using n by (simp add: analyze_delimited[of no_bmi_fs _ no_bmi_frame, OF f] c exists_path_def)
qed

section \<open>Properties of the patient data cleaner\<close>

subsection \<open>Title case on case-stable code points\<close>

lemma do_title_stable:
  "\<forall>c\<in>set s. case_stable rt c \<Longrightarrow>
   do_title rt left' p (do_title rt left p s) = do_title rt left p s"
proof (induction s arbitrary: left left' p)
  case Nil
  then show ?case by simp
next
  case (Cons c cs)
  from Cons.prems have c: "case_stable rt c" and cs: "\<forall>c\<in>set cs. case_stable rt c"
    by simp_all
  let ?R = "do_title rt (c # left) (is_cased rt c) cs"
  obtain oc where oc: "(if p then lower_ucs4 rt left cs c else to_title rt c) = [oc]"
    and st: "(if p then lower_ucs4 rt left' ?R oc else to_title rt oc) = [oc]"
    and ca: "is_cased rt oc = is_cased rt c"
  proof (cases p)
    case False
    from c obtain t where "to_title rt c = [t]" "to_title rt t = [t]"
      "is_cased rt t = is_cased rt c"
      by (auto simp: case_stable_def split: list.splits)
    with False that show ?thesis by simp
  next
    case True
    from c obtain l where "lower_ucs4 rt left cs c = [l]" "lower_stable rt c l"
      by (auto simp: case_stable_def lower_ucs4_def handle_capital_sigma_def Let_def
          split: list.splits if_splits)
    moreover from this have "lower_ucs4 rt left' ?R l = [l]" "is_cased rt l = is_cased rt c"
      by (simp_all add: lower_stable_def lower_ucs4_def)
    ultimately show ?thesis using True that by simp
  qed
  have "do_title rt left p (c # cs) = oc # ?R"
    using oc by simp
  moreover have "do_title rt left' p (oc # ?R) = oc # do_title rt (oc # left') (is_cased rt c) ?R"
    using st ca by simp
  moreover have "do_title rt (oc # left') (is_cased rt c) ?R = ?R"
    using cs by (rule Cons.IH)
  ultimately show ?case by simp
qed

lemma ascii_case_stable: "ascii_conformant rt \<Longrightarrow> c < 128 \<Longrightarrow> case_stable rt c"
  by (auto simp: ascii_conformant_def case_stable_def lower_stable_def ascii_upper_def
      ascii_lower_def ascii_letter_def)

lemma sample_runtime_conformant: "ascii_conformant sample_runtime"
  by (simp add: ascii_conformant_def sample_runtime_def)

lemmas title_simps = title_def str_def sample_runtime_def ascii_upper_def ascii_lower_def
  ascii_letter_def lower_ucs4_def

subsection \<open>Dictionaries\<close>

lemma name_neq_age: "str ''name'' \<noteq> str ''age''"
  by (simp add: str_def)

lemma map_of_dict_set: "map_of (dict_set d k v) = (map_of d)(k \<mapsto> v)"
  by (simp add: dict_set_def update_conv')

lemma distinct_dict_set: "distinct (map fst d) \<Longrightarrow> distinct (map fst (dict_set d k v))"
  by (simp add: dict_set_def distinct_update)

lemma title_name_Inr:
  "title_name rt d = Inr d1 \<Longrightarrow>
   \<exists>s. map_of d (str ''name'') = Some (JStr s) \<and> d1 = dict_set d (str ''name'') (JStr (title rt s))"
  by (auto simp: title_name_def split: option.splits json.splits)

lemma coerce_age_Inr:
  "coerce_age rt d1 = Inr d2 \<Longrightarrow>
   \<exists>n. py_int rt (dict_get d1 (str ''age'') (JInt 0)) = Inr n \<and> d2 = dict_set d1 (str ''age'') (JInt n)"
  by (auto simp: coerce_age_def split: sum.splits)

lemma normalize_Inr:
  assumes "normalize rt d = Inr d2"
  shows "\<exists>s n. map_of d (str ''name'') = Some (JStr s) \<and>
      py_int rt (dict_get d (str ''age'') (JInt 0)) = Inr n \<and>
      d2 = dict_set (dict_set d (str ''name'') (JStr (title rt s))) (str ''age'') (JInt n)"
proof -
  from assms obtain d1 where d1: "title_name rt d = Inr d1" and d2: "coerce_age rt d1 = Inr d2"
    by (auto simp: normalize_def split: sum.splits)
  from title_name_Inr[OF d1] obtain s where s: "map_of d (str ''name'') = Some (JStr s)"
    and e1: "d1 = dict_set d (str ''name'') (JStr (title rt s))" by blast
  from coerce_age_Inr[OF d2] obtain n where n: "py_int rt (dict_get d1 (str ''age'') (JInt 0)) = Inr n"
    and e2: "d2 = dict_set d1 (str ''age'') (JInt n)" by blast
  have "dict_get d1 (str ''age'') (JInt 0) = dict_get d (str ''age'') (JInt 0)"
    using name_neq_age by (simp add: dict_get_def e1 map_of_dict_set)
  with s n e1 e2 show ?thesis by auto
qed

lemma normalize_distinct:
  "normalize rt d = Inr d2 \<Longrightarrow> distinct (map fst d) \<Longrightarrow> distinct (map fst d2)"
  by (auto dest!: normalize_Inr simp: distinct_dict_set)

lemma normalize_age:
  "normalize rt d = Inr d2 \<Longrightarrow>
   \<exists>n. py_int rt (dict_get d (str ''age'') (JInt 0)) = Inr n \<and>
       map_of d2 (str ''age'') = Some (JInt n) \<and> age_ge_18 d2 = (18 \<le> n)"
  by (auto dest!: normalize_Inr simp: map_of_dict_set age_ge_18_def)

subsection \<open>The loop\<close>

lemma patient_tuple_Inr: "patient_tuple d = Inr t \<Longrightarrow> t = sorted_items d"
  by (simp add: patient_tuple_def split: if_splits)

lemma clean_loop_Cons_Inr:
  assumes "clean_loop rt (a # as) h seen cleaned = (h', Inr out)"
  shows "\<exists>d. normalize rt (h a) = Inr d \<and>
     (if age_ge_18 d \<and> \<not> tuple_in (sorted_items d) seen
      then clean_loop rt as (h(a := d)) (sorted_items d # seen) (cleaned @ [a]) = (h', Inr out)
      else clean_loop rt as (h(a := d)) seen cleaned = (h', Inr out))"
proof -
  from assms obtain d1 where d1: "title_name rt (h a) = Inr d1"
    by (auto split: sum.splits)
  from assms d1 obtain d2 where d2: "coerce_age rt d1 = Inr d2"
    by (auto simp: Let_def split: sum.splits)
  have n: "normalize rt (h a) = Inr d2"
    by (simp add: normalize_def d1 d2)
  show ?thesis
  proof (cases "age_ge_18 d2")
    case False
    with assms d1 d2 n show ?thesis by (auto simp: Let_def)
  next
    case True
    with assms d1 d2 obtain t where t: "patient_tuple d2 = Inr t"
      by (auto simp: Let_def split: sum.splits)
    then have "t = sorted_items d2" by (rule patient_tuple_Inr)
    with assms d1 d2 n True t show ?thesis by (auto simp: Let_def)
  qed
qed

lemma clean_loop_frame:
  "clean_loop rt ps h seen cleaned = (h', Inr out) \<Longrightarrow> a \<notin> set ps \<Longrightarrow> h' a = h a"
proof (induction ps arbitrary: h seen cleaned)
  case Nil
  then show ?case by simp
next
  case (Cons p ps)
  from clean_loop_Cons_Inr[OF Cons.prems(1)] obtain d seen' cleaned' where
    "clean_loop rt ps (h(p := d)) seen' cleaned' = (h', Inr out)"
    by (auto split: if_splits)
  from Cons.IH[OF this] Cons.prems(2) show ?case by simp
qed

lemma clean_loop_normalize:
  "clean_loop rt ps h seen cleaned = (h', Inr out) \<Longrightarrow> distinct ps \<Longrightarrow> a \<in> set ps \<Longrightarrow>
   normalize rt (h a) = Inr (h' a)"
proof (induction ps arbitrary: h seen cleaned)
  case Nil
  then show ?case by simp
next
  case (Cons p ps)
  from clean_loop_Cons_Inr[OF Cons.prems(1)] obtain d seen' cleaned' where
    d: "normalize rt (h p) = Inr d" and
    r: "clean_loop rt ps (h(p := d)) seen' cleaned' = (h', Inr out)"
    by (auto split: if_splits)
  show ?case
  proof (cases "a = p")
    case True
    with Cons.prems(2) have "p \<notin> set ps" by simp
    from clean_loop_frame[OF r this] have "h' p = d" by simp
    with d True show ?thesis by simp
  next
    case False
    with Cons.prems have "a \<in> set ps" "distinct ps" by simp_all
    from Cons.IH[OF r this(2) this(1)] False show ?thesis by simp
  qed
qed

lemma clean_loop_kept:
  "clean_loop rt ps h seen cleaned = (h', Inr out) \<Longrightarrow> distinct ps \<Longrightarrow>
   out = cleaned @ kept h' seen ps"
proof (induction ps arbitrary: h seen cleaned)
  case Nil
  then show ?case by simp
next
  case (Cons p ps)
  from Cons.prems(2) have p: "p \<notin> set ps" and dps: "distinct ps" by simp_all
  from clean_loop_Cons_Inr[OF Cons.prems(1)] obtain d where
    d: "normalize rt (h p) = Inr d" and
    r: "if age_ge_18 d \<and> \<not> tuple_in (sorted_items d) seen
      then clean_loop rt ps (h(p := d)) (sorted_items d # seen) (cleaned @ [p]) = (h', Inr out)
      else clean_loop rt ps (h(p := d)) seen cleaned = (h', Inr out)"
    by blast
  show ?case
  proof (cases "age_ge_18 d \<and> \<not> tuple_in (sorted_items d) seen")
    case True
    with r have r': "clean_loop rt ps (h(p := d)) (sorted_items d # seen) (cleaned @ [p]) = (h', Inr out)"
      by simp
    from clean_loop_frame[OF r' p] have hp: "h' p = d" by simp
    from Cons.IH[OF r' dps] True hp show ?thesis by simp
  next
    case False
    with r have r': "clean_loop rt ps (h(p := d)) seen cleaned = (h', Inr out)"
      by simp
    from clean_loop_frame[OF r' p] have hp: "h' p = d" by simp
    from Cons.IH[OF r' dps] False hp show ?thesis by auto
  qed
qed

lemma clean_patient_data_Inr:
  "clean_patient_data rt h ps = (h', Inr out) \<longleftrightarrow> clean_loop rt ps h [] [] = (h', Inr out)"
  by (auto simp: clean_patient_data_def split: prod.splits sum.splits)

subsection \<open>Equality of tuples\<close>

text \<open>
  Values of the same kind are equal when they are the same; a number is equal to a number
  of another kind with the same value, as line 101 finds \<open>32\<close> and \<open>32.0\<close> equal.
\<close>

lemma py_eq_simps:
  "py_eq (JStr s) (JStr t) \<longleftrightarrow> s = t"
  "py_eq (JInt m) (JInt n) \<longleftrightarrow> m = n"
  "py_eq (JInt m) (JFloat r) \<longleftrightarrow> of_int m = r"
  "py_eq (JBool b) (JInt n) \<longleftrightarrow> (if b then 1 else 0) = n"
  "py_eq (JStr s) (JInt n) \<longleftrightarrow> False"
  "py_eq JNull JNull"
  by (auto simp: py_eq_def)

lemma py_eq_refl: "py_eq x x"
  by (cases x) (simp_all add: py_eq_def)

lemma py_eq_trans: "py_eq x y \<Longrightarrow> py_eq y z \<Longrightarrow> py_eq x z"
  by (auto simp: py_eq_def split: option.splits)

lemma tuple_eq_trans: "tuple_eq t u \<Longrightarrow> tuple_eq u v \<Longrightarrow> tuple_eq t v"
proof -
  have "item_eq a b \<Longrightarrow> item_eq b c \<Longrightarrow> item_eq a c" for a b c
    by (auto simp: item_eq_def intro: py_eq_trans)
  then show "tuple_eq t u \<Longrightarrow> tuple_eq u v \<Longrightarrow> tuple_eq t v"
    unfolding tuple_eq_def by (rule list_all2_trans)
qed

lemma tuple_in_Cons: "tuple_in t (u # seen) \<longleftrightarrow> tuple_eq t u \<or> tuple_in t seen"
  by (simp add: tuple_in_def)

lemma tuple_in_trans: "tuple_eq t u \<Longrightarrow> tuple_in u seen \<Longrightarrow> tuple_in t seen"
  by (auto simp: tuple_in_def list_ex_iff intro: tuple_eq_trans)

lemma tuple_eq_lookup:
  "tuple_eq xs ys \<Longrightarrow> rel_option py_eq (map_of xs k) (map_of ys k)"
  unfolding tuple_eq_def
  by (induction rule: list_all2_induct) (auto simp: item_eq_def)

lemma lookup_tuple_eq:
  "map fst xs = map fst ys \<Longrightarrow> distinct (map fst xs) \<Longrightarrow>
   (\<And>k. rel_option py_eq (map_of xs k) (map_of ys k)) \<Longrightarrow> tuple_eq xs ys"
proof (induction xs arbitrary: ys)
  case Nil
  then show ?case by (simp add: tuple_eq_def)
next
  case (Cons x xs)
  from Cons.prems(1) obtain y ys' where ys: "ys = y # ys'" and k: "fst x = fst y"
    and m: "map fst xs = map fst ys'" by auto
  from Cons.prems(3)[of "fst x"] k have v: "py_eq (snd x) (snd y)"
    by (simp add: ys)
  have "rel_option py_eq (map_of xs k) (map_of ys' k)" for k
  proof (cases "k = fst x")
    case True
    with Cons.prems(2) have "map_of xs k = None"
      by (simp add: map_of_eq_None_iff)
    moreover from True Cons.prems(2) m have "map_of ys' k = None"
      by (metis distinct.simps(2) list.simps(9) map_of_eq_None_iff set_map)
    ultimately show ?thesis by simp
  next
    case False
    with Cons.prems(3)[of k] k show ?thesis by (simp add: ys)
  qed
  with Cons.IH[OF m] Cons.prems(2) have "tuple_eq xs ys'" by simp
  with k v show ?case by (simp add: ys tuple_eq_def item_eq_def)
qed

lemma distinct_keys_sorted_items:
  "distinct (map fst d) \<Longrightarrow> distinct (map fst (sorted_items d))"
  by (simp add: sorted_items_def distinct_map)

lemma map_of_sorted_items: "distinct (map fst d) \<Longrightarrow> map_of (sorted_items d) = map_of d"
  by (rule map_of_inject_set[THEN iffD2])
     (simp_all add: distinct_keys_sorted_items, simp add: sorted_items_def)

lemma same_fields_lookup:
  assumes "distinct (map fst d)"
  shows "same_fields d e \<longleftrightarrow> (\<forall>k. rel_option py_eq (map_of d k) (map_of e k))"
proof
  assume s: "same_fields d e"
  show "\<forall>k. rel_option py_eq (map_of d k) (map_of e k)"
  proof
    fix k
    show "rel_option py_eq (map_of d k) (map_of e k)"
    proof (cases "map_of d k")
      case None
      have "map_of e k = None"
      proof (rule ccontr)
        assume "map_of e k \<noteq> None"
        then obtain w where "(k, w) \<in> set e" by (auto dest: map_of_SomeD)
        with s have "map_of d k \<noteq> None"
          by (auto simp: same_fields_def list_all_iff)
        with None show False by simp
      qed
      with None show ?thesis by simp
    next
      case (Some v)
      then have "(k, v) \<in> set d" by (rule map_of_SomeD)
      with s obtain w where "map_of e k = Some w" "py_eq v w"
        by (fastforce simp: same_fields_def list_all_iff split: option.splits)
      with Some show ?thesis by simp
    qed
  qed
next
  assume r: "\<forall>k. rel_option py_eq (map_of d k) (map_of e k)"
  have 1: "case map_of e (fst x) of None \<Rightarrow> False | Some w \<Rightarrow> py_eq (snd x) w" if "x \<in> set d" for x
  proof -
    from that assms have "map_of d (fst x) = Some (snd x)" by simp
    with r[rule_format, of "fst x"] show ?thesis
      by (auto simp: option_rel_Some1)
  qed
  have 2: "map_of d (fst y) \<noteq> None" if "y \<in> set e" for y
  proof -
    from that have "map_of e (fst y) \<noteq> None"
      by (simp add: map_of_eq_None_iff)
    with r[rule_format, of "fst y"] show ?thesis
      by (cases "map_of d (fst y)") auto
  qed
  from 1 2 show "same_fields d e"
    by (simp add: same_fields_def list_all_iff)
qed

lemma tuple_eq_sorted_items:
  assumes "distinct (map fst d)" and "distinct (map fst e)"
  shows "tuple_eq (sorted_items d) (sorted_items e) \<longleftrightarrow> same_fields d e"
proof
  assume "tuple_eq (sorted_items d) (sorted_items e)"
  then have "rel_option py_eq (map_of (sorted_items d) k) (map_of (sorted_items e) k)" for k
    by (rule tuple_eq_lookup)
  with assms show "same_fields d e"
    by (simp add: same_fields_lookup map_of_sorted_items)
next
  assume "same_fields d e"
  with assms have r: "rel_option py_eq (map_of d k) (map_of e k)" for k
    by (simp add: same_fields_lookup)
  have "dom (map_of d) = dom (map_of e)"
  proof (rule set_eqI)
    fix k
    from r[of k] show "k \<in> dom (map_of d) \<longleftrightarrow> k \<in> dom (map_of e)"
      by (cases "map_of d k"; cases "map_of e k") auto
  qed
  then have "set (map fst (sorted_items d)) = set (map fst (sorted_items e))"
    by (simp add: dom_map_of_conv_image_fst sorted_items_def)
  moreover have "sorted (map fst (sorted_items d))" "sorted (map fst (sorted_items e))"
    by (simp_all add: sorted_items_def)
  ultimately have "map fst (sorted_items d) = map fst (sorted_items e)"
    using assms by (intro sorted_distinct_set_unique) (simp_all add: distinct_keys_sorted_items)
  then show "tuple_eq (sorted_items d) (sorted_items e)"
    using assms r
    by (intro lookup_tuple_eq) (simp_all add: distinct_keys_sorted_items map_of_sorted_items)
qed

subsection \<open>The references the loop keeps\<close>

lemma kept_filter:
  "distinct ps \<Longrightarrow>
   kept h seen ps =
     filter (\<lambda>a. age_ge_18 (h a) \<and> \<not> tuple_in (sorted_items (h a)) seen \<and>
        list_all (\<lambda>b. age_ge_18 (h b) \<longrightarrow> \<not> tuple_eq (sorted_items (h a)) (sorted_items (h b)))
          (takeWhile (\<lambda>x. x \<noteq> a) ps)) ps"
proof (induction ps arbitrary: seen)
  case Nil
  then show ?case by simp
next
  case (Cons p ps)
  then have p: "p \<notin> set ps" and d: "distinct ps" by simp_all
  show ?case
  proof (cases "age_ge_18 (h p) \<and> \<not> tuple_in (sorted_items (h p)) seen")
    case True
    have "kept h (sorted_items (h p) # seen) ps =
        filter (\<lambda>a. age_ge_18 (h a) \<and> \<not> tuple_in (sorted_items (h a)) seen \<and>
          list_all (\<lambda>b. age_ge_18 (h b) \<longrightarrow> \<not> tuple_eq (sorted_items (h a)) (sorted_items (h b)))
            (takeWhile (\<lambda>x. x \<noteq> a) (p # ps))) ps"
      unfolding Cons.IH[OF d]
      using p True by (intro filter_cong refl) (auto simp: tuple_in_Cons)
    with True show ?thesis by simp
  next
    case False
    have "kept h seen ps =
        filter (\<lambda>a. age_ge_18 (h a) \<and> \<not> tuple_in (sorted_items (h a)) seen \<and>
          list_all (\<lambda>b. age_ge_18 (h b) \<longrightarrow> \<not> tuple_eq (sorted_items (h a)) (sorted_items (h b)))
            (takeWhile (\<lambda>x. x \<noteq> a) (p # ps))) ps"
      unfolding Cons.IH[OF d]
      using p False by (intro filter_cong refl) (auto dest: tuple_in_trans)
    with False show ?thesis by auto
  qed
qed

lemma kept_survives:
  assumes "distinct ps" and "\<And>a. a \<in> set ps \<Longrightarrow> distinct (map fst (h a))"
  shows "kept h [] ps = filter (survives h ps) ps"
proof -
  have "(age_ge_18 (h a) \<and> \<not> tuple_in (sorted_items (h a)) [] \<and>
        list_all (\<lambda>b. age_ge_18 (h b) \<longrightarrow> \<not> tuple_eq (sorted_items (h a)) (sorted_items (h b)))
          (takeWhile (\<lambda>x. x \<noteq> a) ps)) = survives h ps a" if a: "a \<in> set ps" for a
  proof -
    have "tuple_eq (sorted_items (h a)) (sorted_items (h b)) = same_fields (h a) (h b)"
      if "b \<in> set (takeWhile (\<lambda>x. x \<noteq> a) ps)" for b
    proof -
      from that have "b \<in> set ps" by (rule set_takeWhileD[THEN conjunct1])
      with a assms(2) show ?thesis by (simp add: tuple_eq_sorted_items)
    qed
    then show ?thesis
      by (auto simp: survives_def tuple_in_def list_all_iff)
  qed
  then show ?thesis
    unfolding kept_filter[OF assms(1)] by (intro filter_cong refl) 
qed

lemma clean_loop_subseq:
  "clean_loop rt ps h seen cleaned = (h', Inr out) \<Longrightarrow> \<exists>out'. out = cleaned @ out' \<and> subseq out' ps"
proof (induction ps arbitrary: h seen cleaned)
  case Nil
  then show ?case by simp
next
  case (Cons p ps)
  from clean_loop_Cons_Inr[OF Cons.prems] obtain d where
    r: "if age_ge_18 d \<and> \<not> tuple_in (sorted_items d) seen
      then clean_loop rt ps (h(p := d)) (sorted_items d # seen) (cleaned @ [p]) = (h', Inr out)
      else clean_loop rt ps (h(p := d)) seen cleaned = (h', Inr out)"
    by blast
  show ?case
  proof (cases "age_ge_18 d \<and> \<not> tuple_in (sorted_items d) seen")
    case True
    with r Cons.IH obtain out' where "out = (cleaned @ [p]) @ out'" "subseq out' ps"
      by metis
    then have "out = cleaned @ p # out'" "subseq (p # out') (p # ps)" by simp_all
    then show ?thesis by blast
  next
    case False
    with r Cons.IH obtain out' where "out = cleaned @ out'" "subseq out' ps"
      by metis
    then have "out = cleaned @ out'" "subseq out' (p # ps)" by (simp_all add: list_emb_Cons)
    then show ?thesis by blast
  qed
qed

lemma takeWhile_neq_nth:
  "distinct ps \<Longrightarrow> j < length ps \<Longrightarrow> takeWhile (\<lambda>x. x \<noteq> ps ! j) ps = take j ps"
  by (rule takeWhile_eq_take_P_nth) (auto simp: nth_eq_iff_index_eq)

lemma clean_survives:
  assumes "clean_patient_data rt h ps = (h', Inr out)"
    and "distinct ps"
    and "\<forall>a\<in>set ps. distinct (map fst (h a))"
  shows "out = filter (survives h' ps) ps" and "\<forall>a\<in>set ps. distinct (map fst (h' a))"
proof -
  from assms(1) have l: "clean_loop rt ps h [] [] = (h', Inr out)"
    by (simp add: clean_patient_data_Inr)
  show k: "\<forall>a\<in>set ps. distinct (map fst (h' a))"
  proof
    fix a assume a: "a \<in> set ps"
    from clean_loop_normalize[OF l assms(2) a] assms(3) a show "distinct (map fst (h' a))"
      by (auto dest: normalize_distinct)
  qed
  from clean_loop_kept[OF l assms(2)] have "out = kept h' [] ps" by simp
  also from assms(2) k have "\<dots> = filter (survives h' ps) ps"
    by (intro kept_survives) simp_all
  finally show "out = filter (survives h' ps) ps" .
qed

subsection \<open>Identical records\<close>

lemma same_fields_refl: "distinct (map fst d) \<Longrightarrow> same_fields d d"
  by (simp add: same_fields_lookup option.rel_refl py_eq_refl)

lemma same_fields_trans:
  assumes "distinct (map fst d)" and "distinct (map fst e)"
    and "same_fields d e" and "same_fields e f"
  shows "same_fields d f"
proof -
  have "rel_option py_eq (map_of d k) (map_of f k)" for k
  proof -
    from assms(1,3) have 1: "rel_option py_eq (map_of d k) (map_of e k)"
      by (simp add: same_fields_lookup)
    from assms(2,4) have 2: "rel_option py_eq (map_of e k) (map_of f k)"
      by (simp add: same_fields_lookup)
    from 1 2 show ?thesis
      by (cases "map_of d k"; cases "map_of e k"; cases "map_of f k") (auto intro: py_eq_trans)
  qed
  with assms(1) show ?thesis by (simp add: same_fields_lookup)
qed

lemma same_fields_age:
  assumes "distinct (map fst d)" and "same_fields d e"
    and "map_of d (str ''age'') = Some (JInt n)" and "map_of e (str ''age'') = Some (JInt m)"
  shows "n = m"
proof -
  from assms(1,2) have "rel_option py_eq (map_of d (str ''age'')) (map_of e (str ''age''))"
    by (simp add: same_fields_lookup)
  with assms(3,4) show ?thesis by (simp add: py_eq_def)
qed

lemma survives_nth:
  assumes "distinct ps" and "j < length ps"
  shows "survives h ps (ps ! j) \<longleftrightarrow>
     age_ge_18 (h (ps ! j)) \<and>
     (\<forall>i<j. age_ge_18 (h (ps ! i)) \<longrightarrow> \<not> same_fields (h (ps ! j)) (h (ps ! i)))"
proof -
  have "set (take j ps) = (!) ps ` {0..<j}"
    using assms(2) by (simp add: nth_image)
  then have t: "set (take j ps) = {ps ! i |i. i < j}"
    by auto
  show ?thesis
    unfolding survives_def takeWhile_neq_nth[OF assms] list_all_iff t by blast
qed

text \<open>Every adult record has an identical record in the output.\<close>

lemma adult_represented:
  assumes out: "out = filter (survives h ps) ps"
    and d: "distinct ps"
    and k: "\<forall>a\<in>set ps. distinct (map fst (h a))"
    and b: "b \<in> set ps" and ad: "age_ge_18 (h b)"
  shows "\<exists>c\<in>set out. same_fields (h b) (h c)"
proof -
  let ?P = "\<lambda>i. i < length ps \<and> age_ge_18 (h (ps ! i)) \<and> same_fields (h b) (h (ps ! i))"
  from b obtain j where j: "j < length ps" "ps ! j = b"
    by (auto simp: in_set_conv_nth)
  with k b ad have "?P j"
    by (simp add: same_fields_refl)
  then obtain i where i: "?P i" and least: "\<forall>m<i. \<not> ?P m"
    using exists_least_iff[of ?P] by blast
  have "survives h ps (ps ! i)"
    unfolding survives_nth[OF d i[THEN conjunct1]]
  proof (intro conjI allI impI)
    show "age_ge_18 (h (ps ! i))" using i by simp
  next
    fix m assume m: "m < i" and am: "age_ge_18 (h (ps ! m))"
    show "\<not> same_fields (h (ps ! i)) (h (ps ! m))"
    proof
      assume s: "same_fields (h (ps ! i)) (h (ps ! m))"
      from i have "ps ! i \<in> set ps" by simp
      with k b have "distinct (map fst (h b))" "distinct (map fst (h (ps ! i)))"
        by simp_all
      moreover from i have "same_fields (h b) (h (ps ! i))" by simp
      ultimately have "same_fields (h b) (h (ps ! m))"
        using s by (rule same_fields_trans)
      with m am i least show False by auto
    qed
  qed
  with i have "ps ! i \<in> set out" by (simp add: out)
  with i show ?thesis by blast
qed

subsection \<open>The sample run\<close>

lemma sample_out: "snd (clean_patient_data sample_runtime sample_heap sample_refs) = Inr [10, 13, 14]"
  by code_simp

lemma sample_clean:
  "clean_patient_data sample_runtime sample_heap sample_refs = (cleaned_heap, Inr [10, 13, 14])"
  by (simp add: prod_eq_iff cleaned_heap_def sample_out)

lemma sample_distinct: "distinct sample_refs"
  by (simp add: sample_refs_def)

lemma sample_keys: "\<forall>a\<in>set sample_refs. distinct (map fst (sample_heap a))"
  by (simp add: sample_refs_def sample_heap_def patient_record_def str_def)

lemma cleaned_heap_values:
  "cleaned_heap 10 = patient_record ''John Smith'' (JInt 32) ''male'' ''flu''"
  "cleaned_heap 11 = patient_record ''Jane Doe'' (JInt 17) ''female'' ''cold''"
  "cleaned_heap 12 =
     [(str ''diagnosis'', JStr (str ''flu'')), (str ''gender'', JStr (str ''male'')),
      (str ''age'', JInt 32), (str ''name'', JStr (str ''John Smith''))]"
  "cleaned_heap 13 = patient_record ''John Smith'' (JInt 32) ''male'' ''asthma''"
  "cleaned_heap 14 = patient_record ''Amy O'' (JInt 18) ''female'' ''flu''"
  by code_simp+

lemma sample_same_fields:
  "same_fields (cleaned_heap 12) (cleaned_heap 10)" "\<not> same_fields (cleaned_heap 13) (cleaned_heap 10)"
  "age_ge_18 (cleaned_heap 10)" "age_ge_18 (cleaned_heap 12)" "age_ge_18 (cleaned_heap 13)"
  "\<not> age_ge_18 (cleaned_heap 11)"
  by code_simp+

lemma sample_single:
  "snd (clean_patient_data sample_runtime sample_heap [16]) = Inr []"
  "py_int sample_runtime (dict_get (sample_heap 11) (str ''age'') (JInt 0)) = Inr 17"
  "py_int sample_runtime (dict_get (sample_heap 12) (str ''age'') (JInt 0)) = Inr 32"
  "py_int sample_runtime (dict_get (sample_heap 14) (str ''age'') (JInt 0)) = Inr 18"
  "py_int sample_runtime (dict_get (sample_heap 16) (str ''age'') (JInt 0)) = Inr 0"
  "map_of (sample_heap 16) (str ''age'') = None"
  "distinct (map fst (sample_heap 16))"
  by code_simp+

subsection \<open>The age filter\<close>

text \<open>
  Claim C5. In a run that returns a result, every input record has an age that \<open>int\<close>
  converts (0 when the key is absent) and holds the converted age afterwards. The
  converted age is at least 18 if and only if the output holds a record identical to it
  in all fields: an adult is never lost, and a minor is never kept. The record itself is
  returned if and only if its age is at least 18 and no adult record before it is
  identical to it; for the first record of the input that is if and only if its age is
  at least 18. The references of the input are pairwise distinct and each input
  dictionary has each key once.
\<close>

theorem age_filter:
  assumes "clean_patient_data rt h ps = (h', Inr out)"
    and "distinct ps"
    and "\<forall>a\<in>set ps. distinct (map fst (h a))"
    and "b \<in> set ps"
  shows "\<exists>n. py_int rt (dict_get (h b) (str ''age'') (JInt 0)) = Inr n \<and>
       map_of (h' b) (str ''age'') = Some (JInt n) \<and>
       (18 \<le> n \<longleftrightarrow> (\<exists>c\<in>set out. same_fields (h' b) (h' c))) \<and>
       (b \<in> set out \<longleftrightarrow>
          18 \<le> n \<and>
          list_all (\<lambda>c. age_ge_18 (h' c) \<longrightarrow> \<not> same_fields (h' b) (h' c))
            (takeWhile (\<lambda>x. x \<noteq> b) ps)) \<and>
       (b = hd ps \<longrightarrow> (b \<in> set out \<longleftrightarrow> 18 \<le> n))"
proof -
  from assms(1) have l: "clean_loop rt ps h [] [] = (h', Inr out)"
    by (simp add: clean_patient_data_Inr)
  have out: "out = filter (survives h' ps) ps" and k: "\<forall>a\<in>set ps. distinct (map fst (h' a))"
    using assms(1-3) by (rule clean_survives)+
  have norm: "normalize rt (h a) = Inr (h' a)" if "a \<in> set ps" for a
    using clean_loop_normalize[OF l assms(2) that] .
  from normalize_age[OF norm[OF assms(4)]] obtain n where
    n: "py_int rt (dict_get (h b) (str ''age'') (JInt 0)) = Inr n"
    and s: "map_of (h' b) (str ''age'') = Some (JInt n)"
    and g: "age_ge_18 (h' b) = (18 \<le> n)" by blast
  have 1: "18 \<le> n \<longleftrightarrow> (\<exists>c\<in>set out. same_fields (h' b) (h' c))"
  proof
    assume "18 \<le> n"
    with g have "age_ge_18 (h' b)" by simp
    with out assms(2) k assms(4) show "\<exists>c\<in>set out. same_fields (h' b) (h' c)"
      by (rule adult_represented)
  next
    assume "\<exists>c\<in>set out. same_fields (h' b) (h' c)"
    then obtain c where c: "c \<in> set out" and sf: "same_fields (h' b) (h' c)" by blast
    from c have cps: "c \<in> set ps" and sc: "survives h' ps c" by (simp_all add: out)
    from normalize_age[OF norm[OF cps]] obtain m where
      m: "map_of (h' c) (str ''age'') = Some (JInt m)" and gm: "age_ge_18 (h' c) = (18 \<le> m)"
      by blast
    from k assms(4) sf s m have "n = m" by (auto intro: same_fields_age)
    with sc gm show "18 \<le> n" by (simp add: survives_def)
  qed
  have 2: "b \<in> set out \<longleftrightarrow>
          18 \<le> n \<and>
          list_all (\<lambda>c. age_ge_18 (h' c) \<longrightarrow> \<not> same_fields (h' b) (h' c))
            (takeWhile (\<lambda>x. x \<noteq> b) ps)"
    using assms(4) g by (simp add: out survives_def)
  have 3: "b \<in> set out \<longleftrightarrow> 18 \<le> n" if "b = hd ps"
  proof -
    from assms(4) that have "takeWhile (\<lambda>x. x \<noteq> b) ps = []"
      by (cases ps) simp_all
    with 2 show ?thesis by simp
  qed
  from n s 1 2 3 show ?thesis by blast
qed

theorem age_filter_witness:
  "snd (clean_patient_data sample_runtime sample_heap sample_refs) = Inr [10, 13, 14] \<and>
   py_int sample_runtime (dict_get (sample_heap 11) (str ''age'') (JInt 0)) = Inr 17 \<and>
   \<not> list_ex (\<lambda>c. same_fields (cleaned_heap 11) (cleaned_heap c)) [10, 13, 14] \<and>
   py_int sample_runtime (dict_get (sample_heap 12) (str ''age'') (JInt 0)) = Inr 32 \<and>
   list_ex (\<lambda>c. same_fields (cleaned_heap 12) (cleaned_heap c)) [10, 13, 14] \<and>
   py_int sample_runtime (dict_get (sample_heap 14) (str ''age'') (JInt 0)) = Inr 18 \<and>
   14 \<in> set [10, 13, 14 :: nat] \<and>
   (\<exists>h'. clean_patient_data sample_runtime sample_heap [16] = (h', Inr []) \<and>
      map_of (h' 16) (str ''age'') = Some (JInt 0)) \<and>
   map_of (sample_heap 16) (str ''age'') = None"
proof -
  have m: "11 \<in> set sample_refs" "12 \<in> set sample_refs" "14 \<in> set sample_refs"
    by (simp_all add: sample_refs_def)
  note run = age_filter [OF sample_clean sample_distinct sample_keys]
  from run [OF m(1)] have "(18::int) \<le> 17 \<longleftrightarrow>
      (\<exists>c\<in>set [10, 13, 14]. same_fields (cleaned_heap 11) (cleaned_heap c))"
    by (auto simp: sample_single)
  then have 1: "\<not> list_ex (\<lambda>c. same_fields (cleaned_heap 11) (cleaned_heap c)) [10, 13, 14]"
    unfolding list_ex_iff by simp
  from run [OF m(2)] have "(18::int) \<le> 32 \<longleftrightarrow>
      (\<exists>c\<in>set [10, 13, 14]. same_fields (cleaned_heap 12) (cleaned_heap c))"
    by (auto simp: sample_single)
  then have 2: "list_ex (\<lambda>c. same_fields (cleaned_heap 12) (cleaned_heap c)) [10, 13, 14]"
    unfolding list_ex_iff by simp
  let ?h6 = "fst (clean_patient_data sample_runtime sample_heap [16])"
  have r6: "clean_patient_data sample_runtime sample_heap [16] = (?h6, Inr [])"
    by (simp add: prod_eq_iff sample_single)
  have "map_of (?h6 16) (str ''age'') = Some (JInt 0)"
    using age_filter [OF r6, of 16] by (auto simp: sample_single)
  with r6 have 3: "\<exists>h'. clean_patient_data sample_runtime sample_heap [16] = (h', Inr []) \<and>
      map_of (h' 16) (str ''age'') = Some (JInt 0)"
    by blast
  show ?thesis
    using sample_out 1 2 3 by (simp add: sample_single)
qed

subsection \<open>Duplicates\<close>

text \<open>
  Claim C6. In a run that returns a result, the record at position \<open>j\<close> is returned if and
  only if its age is at least 18 and no record before it has an age of at least 18 and is
  identical to it in all fields: of identical records the first is returned and no other,
  and a record that differs from every earlier one in some field is returned. The check
  of the code, equality of the sorted item tuples, holds exactly when the two records are
  identical in all fields, and that depends on the value under each key only, not on the
  order of the items. The references are pairwise distinct and each input dictionary has
  each key once.
\<close>

theorem duplicates_collapse:
  assumes "clean_patient_data rt h ps = (h', Inr out)"
    and "distinct ps"
    and "\<forall>a\<in>set ps. distinct (map fst (h a))"
    and "j < length ps"
  shows "(ps ! j \<in> set out \<longleftrightarrow>
       age_ge_18 (h' (ps ! j)) \<and>
       (\<forall>i<j. age_ge_18 (h' (ps ! i)) \<longrightarrow> \<not> same_fields (h' (ps ! j)) (h' (ps ! i)))) \<and>
     (\<forall>i<length ps.
       (same_fields (h' (ps ! j)) (h' (ps ! i)) \<longleftrightarrow>
          tuple_eq (sorted_items (h' (ps ! j))) (sorted_items (h' (ps ! i)))) \<and>
       (same_fields (h' (ps ! j)) (h' (ps ! i)) \<longleftrightarrow>
          (\<forall>k. rel_option py_eq (map_of (h' (ps ! j)) k) (map_of (h' (ps ! i)) k))))"
proof -
  have out: "out = filter (survives h' ps) ps" and k: "\<forall>a\<in>set ps. distinct (map fst (h' a))"
    using assms(1-3) by (rule clean_survives)+
  from assms(4) have m: "ps ! j \<in> set ps" by simp
  have "set (take j ps) = (!) ps ` {0..<j}"
    using assms(4) by (simp add: nth_image)
  then have t: "set (take j ps) = {ps ! i |i. i < j}"
    by auto
  have "ps ! j \<in> set out \<longleftrightarrow> survives h' ps (ps ! j)"
    using m by (simp add: out)
  also have "\<dots> \<longleftrightarrow> age_ge_18 (h' (ps ! j)) \<and>
       (\<forall>i<j. age_ge_18 (h' (ps ! i)) \<longrightarrow> \<not> same_fields (h' (ps ! j)) (h' (ps ! i)))"
    unfolding survives_def takeWhile_neq_nth[OF assms(2,4)] list_all_iff t by blast
  finally have 1: "ps ! j \<in> set out \<longleftrightarrow> age_ge_18 (h' (ps ! j)) \<and>
       (\<forall>i<j. age_ge_18 (h' (ps ! i)) \<longrightarrow> \<not> same_fields (h' (ps ! j)) (h' (ps ! i)))" .
  have 2: "same_fields (h' (ps ! j)) (h' (ps ! i)) \<longleftrightarrow>
          tuple_eq (sorted_items (h' (ps ! j))) (sorted_items (h' (ps ! i)))"
    if "i < length ps" for i
    using that k m by (simp add: tuple_eq_sorted_items)
  have 3: "same_fields (h' (ps ! j)) (h' (ps ! i)) \<longleftrightarrow>
          (\<forall>k. rel_option py_eq (map_of (h' (ps ! j)) k) (map_of (h' (ps ! i)) k))" for i
    using k m by (simp add: same_fields_lookup)
  from 1 2 3 show ?thesis by blast
qed

theorem duplicates_collapse_witness:
  "snd (clean_patient_data sample_runtime sample_heap sample_refs) = Inr [10, 13, 14] \<and>
   age_ge_18 (cleaned_heap 12) \<and> same_fields (cleaned_heap 12) (cleaned_heap 10) \<and>
   tuple_eq (sorted_items (cleaned_heap 12)) (sorted_items (cleaned_heap 10)) \<and>
   sample_refs ! 2 \<notin> set [10, 13, 14] \<and>
   age_ge_18 (cleaned_heap 13) \<and> \<not> same_fields (cleaned_heap 13) (cleaned_heap 10) \<and>
   sample_refs ! 3 \<in> set [10, 13, 14]"
proof -
  have n: "sample_refs ! 0 = 10" "sample_refs ! 2 = 12" "sample_refs ! 3 = 13" "length sample_refs = 5"
    by (simp_all add: sample_refs_def)
  have c2: "(sample_refs ! 2 \<in> set [10, 13, 14] \<longleftrightarrow>
       age_ge_18 (cleaned_heap (sample_refs ! 2)) \<and>
       (\<forall>i<2. age_ge_18 (cleaned_heap (sample_refs ! i)) \<longrightarrow>
          \<not> same_fields (cleaned_heap (sample_refs ! 2)) (cleaned_heap (sample_refs ! i)))) \<and>
     (\<forall>i<length sample_refs.
       (same_fields (cleaned_heap (sample_refs ! 2)) (cleaned_heap (sample_refs ! i)) \<longleftrightarrow>
          tuple_eq (sorted_items (cleaned_heap (sample_refs ! 2))) (sorted_items (cleaned_heap (sample_refs ! i)))) \<and>
       (same_fields (cleaned_heap (sample_refs ! 2)) (cleaned_heap (sample_refs ! i)) \<longleftrightarrow>
          (\<forall>k. rel_option py_eq (map_of (cleaned_heap (sample_refs ! 2)) k)
             (map_of (cleaned_heap (sample_refs ! i)) k))))"
    by (rule duplicates_collapse [OF sample_clean sample_distinct sample_keys]) (simp add: n)
  have "same_fields (cleaned_heap (sample_refs ! 2)) (cleaned_heap (sample_refs ! 0)) \<longleftrightarrow>
      tuple_eq (sorted_items (cleaned_heap (sample_refs ! 2))) (sorted_items (cleaned_heap (sample_refs ! 0)))"
    using c2[THEN conjunct2, rule_format, of 0] by (simp add: n)
  then have t: "tuple_eq (sorted_items (cleaned_heap 12)) (sorted_items (cleaned_heap 10))"
    using sample_same_fields(1) by (simp add: n)
  have "sample_refs ! 2 \<in> set [10, 13, 14] \<longrightarrow>
      \<not> same_fields (cleaned_heap (sample_refs ! 2)) (cleaned_heap (sample_refs ! 0))"
    using c2 sample_same_fields(3) by (auto simp: n)
  then have d2: "sample_refs ! 2 \<notin> set [10, 13, 14]"
    using sample_same_fields(1) by (auto simp: n)
  show ?thesis
    using sample_out sample_same_fields t d2 by (simp add: n)
qed

subsection \<open>The order of the output\<close>

text \<open>
  Claim C8. In a run that returns a result, the output is the input list restricted to
  the surviving records, in the order of the input; the empty input gives the empty
  output and no error. The references are pairwise distinct and each input dictionary has
  each key once.
\<close>

theorem output_order:
  assumes "clean_patient_data rt h ps = (h', Inr out)"
    and "distinct ps"
    and "\<forall>a\<in>set ps. distinct (map fst (h a))"
  shows "out = filter (survives h' ps) ps \<and> subseq out ps \<and>
     clean_patient_data rt h [] = (h, Inr [])"
proof -
  have "out = filter (survives h' ps) ps"
    using assms by (rule clean_survives)
  moreover have "subseq (filter (survives h' ps) ps) ps"
    by (rule subseq_filter_left)
  moreover have "clean_patient_data rt h [] = (h, Inr [])"
    by (simp add: clean_patient_data_def)
  ultimately show ?thesis by simp
qed

theorem output_order_witness:
  "snd (clean_patient_data sample_runtime sample_heap sample_refs) = Inr [10, 13, 14] \<and>
   [10, 13, 14] = filter (survives cleaned_heap sample_refs) sample_refs \<and>
   subseq [10, 13, 14] sample_refs \<and>
   clean_patient_data sample_runtime sample_heap [] = (sample_heap, Inr [])"
  using output_order [OF sample_clean sample_distinct sample_keys] sample_out
  by blast

subsection \<open>Idempotence of the name normalization\<close>

text \<open>
  Claim C9, as amended. On a name whose code points are all case-stable, title-casing a
  title-cased name gives the same name, for every runtime. The code points below 128 are
  case-stable in every runtime whose case mappings on them are those of Unicode, and so
  are the accented letters whose mappings are single letters.
\<close>

theorem title_idempotent_stable:
  assumes "\<forall>c\<in>set s. case_stable rt c"
  shows "title rt (title rt s) = title rt s \<and>
     (ascii_conformant rt \<longrightarrow> (\<forall>c<128. case_stable rt c))"
  using assms by (simp add: title_def do_title_stable ascii_case_stable)

theorem title_idempotent_stable_witness:
  "list_all (case_stable sample_runtime) (str ''john smith'') \<and>
   title sample_runtime (str ''john smith'') = str ''John Smith'' \<and>
   title sample_runtime (str ''John Smith'') = str ''John Smith'' \<and>
   list_all (case_stable sample_runtime) jose \<and>
   title sample_runtime jose = [0x4A, 0x6F, 0x73, 0xE9] \<and>
   title sample_runtime [0x4A, 0x6F, 0x73, 0xE9] = [0x4A, 0x6F, 0x73, 0xE9] \<and>
   ascii_conformant sample_runtime \<and> case_stable sample_runtime 0x41"
proof -
  have a: "\<forall>c\<in>set (str ''john smith''). case_stable sample_runtime c"
    by (simp add: str_def sample_runtime_def case_stable_def lower_stable_def
        ascii_upper_def ascii_lower_def ascii_letter_def)
  have b: "\<forall>c\<in>set jose. case_stable sample_runtime c"
    by (simp add: jose_def sample_runtime_def case_stable_def lower_stable_def
        ascii_upper_def ascii_lower_def ascii_letter_def)
  have j: "title sample_runtime (str ''john smith'') = str ''John Smith''"
    by (simp add: title_simps)
  have k: "title sample_runtime jose = [0x4A, 0x6F, 0x73, 0xE9]"
    by (simp add: title_simps jose_def)
  have "title sample_runtime (title sample_runtime (str ''john smith'')) =
      title sample_runtime (str ''john smith'')"
    using title_idempotent_stable [OF a] by blast
  then have 1: "title sample_runtime (str ''John Smith'') = str ''John Smith''"
    by (simp only: j)
  have "title sample_runtime (title sample_runtime jose) = title sample_runtime jose"
    using title_idempotent_stable [OF b] by blast
  then have 2: "title sample_runtime [0x4A, 0x6F, 0x73, 0xE9] = [0x4A, 0x6F, 0x73, 0xE9]"
    by (simp only: k)
  have "\<forall>c<128. case_stable sample_runtime c"
    using title_idempotent_stable [OF a] sample_runtime_conformant by blast
  then have 3: "case_stable sample_runtime 0x41"
    by simp
  show ?thesis
    using a b j k 1 2 3 sample_runtime_conformant by (simp add: list_all_iff)
qed

text \<open>
  For all names the claim fails. The capital I with dot above is cased and its lower case
  is the letter i followed by the combining dot above, which is not cased: in the
  title-cased name the letter after the dot follows a code point that is not cased, and a
  second title-casing makes it a capital.
\<close>

theorem title_not_idempotent:
  "title sample_runtime (title sample_runtime dilek) \<noteq> title sample_runtime dilek"
  by (simp add: title_simps dilek_def)

subsection \<open>Mutation in place\<close>

text \<open>
  Claim C10. In a run that returns a result, the returned references are a subsequence of
  the input references, so each returned record is the dictionary that was passed in;
  no dictionary outside the input changes; and when the input references are pairwise
  distinct, every input dictionary, returned or not, ends with its name replaced by the
  title-cased name and its age replaced by the converted age.
\<close>

theorem mutates_in_place:
  assumes "clean_patient_data rt h ps = (h', Inr out)"
  shows "subseq out ps \<and> (\<forall>a. a \<notin> set ps \<longrightarrow> h' a = h a) \<and>
     (distinct ps \<longrightarrow>
       (\<forall>a\<in>set ps. \<exists>s n.
          map_of (h a) (str ''name'') = Some (JStr s) \<and>
          py_int rt (dict_get (h a) (str ''age'') (JInt 0)) = Inr n \<and>
          h' a = dict_set (dict_set (h a) (str ''name'') (JStr (title rt s))) (str ''age'') (JInt n)))"
proof -
  from assms have l: "clean_loop rt ps h [] [] = (h', Inr out)"
    by (simp add: clean_patient_data_Inr)
  from clean_loop_subseq[OF l] have 1: "subseq out ps" by simp
  have 2: "\<forall>a. a \<notin> set ps \<longrightarrow> h' a = h a"
    using clean_loop_frame[OF l] by blast
  have 3: "\<exists>s n. map_of (h a) (str ''name'') = Some (JStr s) \<and>
          py_int rt (dict_get (h a) (str ''age'') (JInt 0)) = Inr n \<and>
          h' a = dict_set (dict_set (h a) (str ''name'') (JStr (title rt s))) (str ''age'') (JInt n)"
    if "distinct ps" "a \<in> set ps" for a
    using normalize_Inr[OF clean_loop_normalize[OF l that]] by blast
  from 1 2 3 show ?thesis by blast
qed

theorem mutates_in_place_witness:
  "snd (clean_patient_data sample_runtime sample_heap sample_refs) = Inr [10, 13, 14] \<and>
   subseq [10, 13, 14] sample_refs \<and>
   cleaned_heap 15 = sample_heap 15 \<and>
   sample_heap 11 = patient_record ''jane doe'' (JInt 17) ''female'' ''cold'' \<and>
   cleaned_heap 11 = patient_record ''Jane Doe'' (JInt 17) ''female'' ''cold'' \<and>
   sample_heap 10 = patient_record ''john smith'' (JStr (str ''32'')) ''male'' ''flu'' \<and>
   cleaned_heap 10 = patient_record ''John Smith'' (JInt 32) ''male'' ''flu''"
proof -
  have "subseq [10, 13, 14] sample_refs \<and> (\<forall>a. a \<notin> set sample_refs \<longrightarrow> cleaned_heap a = sample_heap a)"
    using mutates_in_place [OF sample_clean] by blast
  moreover have "15 \<notin> set sample_refs"
    by (simp add: sample_refs_def)
  ultimately have "subseq [10, 13, 14] sample_refs" "cleaned_heap 15 = sample_heap 15"
    by blast+
  moreover have "sample_heap 11 = patient_record ''jane doe'' (JInt 17) ''female'' ''cold''"
    "sample_heap 10 = patient_record ''john smith'' (JStr (str ''32'')) ''male'' ''flu''"
    by (simp_all add: sample_heap_def)
  ultimately show ?thesis
    using sample_out by (simp add: cleaned_heap_values)
qed

end
